theory Spec2Isabelle
  imports Main "HOL-Library.Log_Nat" "HOL-Library.Monad_Syntax" "HOL-Library.Signed_Division"
begin

section \<open>Single-precision arithmetic\<close>

text \<open>
  The metric engines of \<^verbatim>\<open>metrics.cu\<close> compute in C++ \<^verbatim>\<open>float\<close> (IEEE 754 binary32, round
  to nearest, ties to even). A value is a rational number, an infinity or NaN. Every arithmetic
  operation computes the exact result and rounds it with \<open>rnd32\<close>. The two zeros are
  identified: the only operation that tells them apart is a division by zero with a nonzero
  numerator, and the divisors of this program (a sum of labels, and an element count minus
  that sum) are never a negative zero unless the numerator is a zero too.
\<close>

datatype f32 = Fin rat | PInf | NInf | NaN

definition pow2 :: "int \<Rightarrow> rat" where
  "pow2 e = (if 0 \<le> e then 2 ^ nat e else 1 / 2 ^ nat (- e))"

text \<open>Round to the nearest integer, ties to the even one.\<close>

definition rhe :: "rat \<Rightarrow> int" where
  "rhe x = (let f = \<lfloor>x\<rfloor>; d = x - of_int f
            in if d < 1 / 2 then f else if 1 / 2 < d then f + 1
               else if even f then f else f + 1)"

text \<open>
  The binary exponent of a magnitude \<open>a \<ge> 0\<close>: \<open>\<lfloor>log\<^sub>2 a\<rfloor>\<close>, and \<open>-126\<close> in the subnormal
  range. The unit in the last place is \<open>2\<close> to the exponent minus 23.
\<close>

definition expo :: "rat \<Rightarrow> int" where
  "expo a = max (- 126) (bitlen \<lfloor>a * 2 ^ 149\<rfloor> - 150)"

definition rnd_mag :: "rat \<Rightarrow> rat" where
  "rnd_mag a = of_int (rhe (a / pow2 (expo a - 23))) * pow2 (expo a - 23)"

definition rnd32 :: "rat \<Rightarrow> f32" where
  "rnd32 q =
     (if 0 \<le> q then (if 2 ^ 128 \<le> rnd_mag q then PInf else Fin (rnd_mag q))
      else (if 2 ^ 128 \<le> rnd_mag (- q) then NInf else Fin (- rnd_mag (- q))))"

definition fneg :: "f32 \<Rightarrow> f32" where
  "fneg x = (case x of Fin a \<Rightarrow> Fin (- a) | PInf \<Rightarrow> NInf | NInf \<Rightarrow> PInf | NaN \<Rightarrow> NaN)"

fun fadd :: "f32 \<Rightarrow> f32 \<Rightarrow> f32" where
  "fadd NaN _ = NaN"
| "fadd _ NaN = NaN"
| "fadd PInf NInf = NaN"
| "fadd NInf PInf = NaN"
| "fadd PInf _ = PInf"
| "fadd _ PInf = PInf"
| "fadd NInf _ = NInf"
| "fadd _ NInf = NInf"
| "fadd (Fin a) (Fin b) = rnd32 (a + b)"

definition fsub :: "f32 \<Rightarrow> f32 \<Rightarrow> f32" where
  "fsub x y = fadd x (fneg y)"

text \<open>The sign of a value that is not NaN, with zero counted as positive.\<close>

fun negative :: "f32 \<Rightarrow> bool" where
  "negative (Fin a) = (a < 0)"
| "negative NInf = True"
| "negative _ = False"

definition signed_inf :: "bool \<Rightarrow> f32" where
  "signed_inf neg = (if neg then NInf else PInf)"

fun fmul :: "f32 \<Rightarrow> f32 \<Rightarrow> f32" where
  "fmul NaN _ = NaN"
| "fmul _ NaN = NaN"
| "fmul (Fin a) (Fin b) = rnd32 (a * b)"
| "fmul x y =
     (if x = Fin 0 \<or> y = Fin 0 then NaN else signed_inf (negative x \<noteq> negative y))"

fun fdiv :: "f32 \<Rightarrow> f32 \<Rightarrow> f32" where
  "fdiv NaN _ = NaN"
| "fdiv _ NaN = NaN"
| "fdiv (Fin a) (Fin b) =
     (if b = 0 then (if a = 0 then NaN else signed_inf (a < 0)) else rnd32 (a / b))"
| "fdiv (Fin a) y = Fin 0"
| "fdiv x (Fin b) = signed_inf (negative x \<noteq> (b < 0))"
| "fdiv x y = NaN"

text \<open>The comparisons \<^verbatim>\<open>>\<close> and \<^verbatim>\<open><=\<close>: false as soon as one side is NaN.\<close>

fun fle :: "f32 \<Rightarrow> f32 \<Rightarrow> bool" where
  "fle NaN _ = False"
| "fle _ NaN = False"
| "fle NInf _ = True"
| "fle _ PInf = True"
| "fle (Fin a) (Fin b) = (a \<le> b)"
| "fle _ _ = False"

fun fgt :: "f32 \<Rightarrow> f32 \<Rightarrow> bool" where
  "fgt NaN _ = False"
| "fgt _ NaN = False"
| "fgt x y = (\<not> fle x y)"

text \<open>The conversion of a C++ \<^verbatim>\<open>int\<close> to \<^verbatim>\<open>float\<close>.\<close>

definition f32_of_int :: "int \<Rightarrow> f32" where
  "f32_of_int i = rnd32 (of_int i)"

text \<open>The constant \<^verbatim>\<open>const float eps = 1e-32\<close>.\<close>

definition eps :: f32 where
  "eps = rnd32 (1 / 10 ^ 32)"

section \<open>Device arrays\<close>

text \<open>
  A device array is a list; an index is a C++ \<^verbatim>\<open>int\<close>. A read or a write outside the array is
  undefined behaviour in the source and the value \<open>None\<close> here, so that a result \<open>Some\<close> of a
  kernel says that every access of the run was inside its array.
\<close>

definition rd :: "'a list \<Rightarrow> int \<Rightarrow> 'a option" where
  "rd xs i = (if 0 \<le> i \<and> i < int (length xs) then Some (xs ! nat i) else None)"

definition wr :: "'a list \<Rightarrow> int \<Rightarrow> 'a \<Rightarrow> 'a list option" where
  "wr xs i v = (if 0 \<le> i \<and> i < int (length xs) then Some (xs[nat i := v]) else None)"

text \<open>The first \<open>n\<close> elements of a buffer, and a result stored at the front of a buffer.\<close>

definition prefix_of :: "'a list \<Rightarrow> int \<Rightarrow> 'a list option" where
  "prefix_of xs n = (if 0 \<le> n \<and> n \<le> int (length xs) then Some (take (nat n) xs) else None)"

definition store_prefix :: "'a list \<Rightarrow> 'a list \<Rightarrow> 'a list option" where
  "store_prefix out xs =
     (if length xs \<le> length out then Some (xs @ drop (length xs) out) else None)"

section \<open>The kernels of the AUC engine\<close>

text \<open>
  \<^verbatim>\<open>finalize_metric\<close> launches every kernel with \<^verbatim>\<open>dim3 grid(160, 1, 1)\<close> and
  \<^verbatim>\<open>dim3 block(1024, 1, 1)\<close>. Every kernel runs a grid-stride loop: thread \<open>t\<close> of the grid
  handles the indices \<open>t, t + S, t + 2S, \<dots>\<close> for the grid size \<open>S = 160 * 1024\<close>, so the
  threads together handle every index below the bound exactly once, and the index \<open>gid\<close> is
  handled by the thread \<open>gid mod S\<close>. The threads of a block are numbered consecutively, and so
  are the 32 threads of a warp, which execute an instruction together.

  In \<^verbatim>\<open>unique_flag_kernel\<close> and \<^verbatim>\<open>unique_index_kernel\<close> two different indices write
  different cells and no cell that is written is read, so the result does not depend on the
  order in which the device runs the threads; the loops below visit the indices in
  ascending order. The results of \<^verbatim>\<open>create_fpr_kernel\<close> and \<^verbatim>\<open>trapz_kernel\<close> do depend on
  that order. It is an input of the two kernels, the \<open>schedule\<close>:

    \<^item> \<open>late_warp w\<close>: the warp \<open>w\<close> executes the first statement of \<^verbatim>\<open>create_fpr_kernel\<close>
      after the cell \<^verbatim>\<open>tpr[num_selected - 1]\<close> has been overwritten;
    \<^item> \<open>add_time gid\<close>: the time of the \<^verbatim>\<open>atomicAdd\<close> to \<^verbatim>\<open>s_auc\<close> for the index \<open>gid\<close> in
      \<^verbatim>\<open>trapz_kernel\<close>; two additions at the same time are taken in index order;
    \<^item> \<open>block_time b\<close>: the time of the \<^verbatim>\<open>atomicAdd\<close> to \<^verbatim>\<open>*auc\<close> of the block \<open>b\<close>.
\<close>

definition grid_dim :: nat where
  "grid_dim = 160"

definition block_dim :: nat where
  "block_dim = 1024"

definition warp_size :: nat where
  "warp_size = 32"

definition block_of :: "nat \<Rightarrow> nat" where
  "block_of gid = (gid mod (block_dim * grid_dim)) div block_dim"

definition warp_of :: "nat \<Rightarrow> nat" where
  "warp_of gid = (gid mod (block_dim * grid_dim)) div warp_size"

record schedule =
  late_warp :: "nat \<Rightarrow> bool"
  add_time :: "nat \<Rightarrow> nat"
  block_time :: "nat \<Rightarrow> nat"

text \<open>
  The schedule in which every warp reads before the overwrite and the additions are made in
  index order.
\<close>

definition in_order :: schedule where
  "in_order = \<lparr>late_warp = (\<lambda>w. False), add_time = (\<lambda>gid. gid), block_time = (\<lambda>b. b)\<rparr>"

function unique_flag_loop :: "f32 list \<Rightarrow> int list \<Rightarrow> int \<Rightarrow> int \<Rightarrow> int list option" where
  "unique_flag_loop data flag num_elems gid =
     (if gid < num_elems - 1 then do {
        lhs \<leftarrow> rd data gid;
        rhs \<leftarrow> rd data (gid + 1);
        flag' \<leftarrow> wr flag gid (if fgt (fsub lhs rhs) eps then 1 else 0);
        unique_flag_loop data flag' num_elems (gid + 1)
      } else Some flag)"
  by pat_completeness auto
termination
  by (relation "measure (\<lambda>(data, flag, num_elems, gid). nat (num_elems - 1 - gid))") auto

definition unique_flag_kernel :: "f32 list \<Rightarrow> int list \<Rightarrow> int \<Rightarrow> int list option" where
  "unique_flag_kernel data flag num_elems = do {
     flag' \<leftarrow> unique_flag_loop data flag num_elems 0;
     wr flag' (num_elems - 1) 1
   }"

function unique_index_loop ::
  "int list \<Rightarrow> int list \<Rightarrow> int list \<Rightarrow> int \<Rightarrow> int \<Rightarrow> int list option" where
  "unique_index_loop flag flag_inc_sum unique_index num_elems gid =
     (if gid < num_elems then do {
        f \<leftarrow> rd flag gid;
        if f = 1 then do {
          s \<leftarrow> rd flag_inc_sum gid;
          unique_index' \<leftarrow> wr unique_index (s - 1) gid;
          unique_index_loop flag flag_inc_sum unique_index' num_elems (gid + 1)
        } else unique_index_loop flag flag_inc_sum unique_index num_elems (gid + 1)
      } else Some unique_index)"
  by pat_completeness auto
termination
  by (relation "measure (\<lambda>(flag, flag_inc_sum, unique_index, num_elems, gid).
        nat (num_elems - gid))") auto

definition unique_index_kernel ::
  "int list \<Rightarrow> int list \<Rightarrow> int list \<Rightarrow> int \<Rightarrow> int list option" where
  "unique_index_kernel flag flag_inc_sum unique_index num_elems =
     unique_index_loop flag flag_inc_sum unique_index num_elems 0"

text \<open>
  \<^verbatim>\<open>create_fpr_kernel\<close>: every thread reads \<^verbatim>\<open>pos_cnt = tpr[num_selected - 1]\<close> on entry, and the
  loop then overwrites \<^verbatim>\<open>tpr\<close> in place, with no synchronisation between the threads. The
  cell \<^verbatim>\<open>tpr[gid]\<close> is read and written by the thread of \<open>gid\<close> only, except for the cell
  \<^verbatim>\<open>tpr[num_selected - 1]\<close>, which every thread reads on entry and the thread of the index
  \<open>num_selected - 1\<close> overwrites. That thread reads the cell on entry and again in the loop
  before it writes, so it writes the quotient of the old value by itself. The threads of its
  warp make their entry read together with it. A thread of another warp reads the old value
  or the quotient, as the schedule has it. \<open>tpr_in\<close> is the array at the launch.
\<close>

definition reads_late :: "schedule \<Rightarrow> int \<Rightarrow> int \<Rightarrow> bool" where
  "reads_late sch num_selected gid \<longleftrightarrow>
     late_warp sch (warp_of (nat gid)) \<and> warp_of (nat gid) \<noteq> warp_of (nat (num_selected - 1))"

definition entry_read :: "schedule \<Rightarrow> f32 list \<Rightarrow> int \<Rightarrow> int \<Rightarrow> f32 option" where
  "entry_read sch tpr_in num_selected gid = do {
     cnt \<leftarrow> rd tpr_in (num_selected - 1);
     Some (if reads_late sch num_selected gid then fdiv cnt cnt else cnt)
   }"

function create_fpr_loop ::
  "schedule \<Rightarrow> f32 list \<Rightarrow> f32 list \<Rightarrow> int list \<Rightarrow> f32 list \<Rightarrow> int \<Rightarrow> int \<Rightarrow> int
     \<Rightarrow> (f32 list \<times> f32 list) option"
  where
  "create_fpr_loop sch tpr_in tpr unique_index fpr num_selected num_total gid =
     (if gid < num_selected then do {
        pos_cnt \<leftarrow> entry_read sch tpr_in num_selected gid;
        let neg_cnt = fsub (f32_of_int num_total) pos_cnt;
        tp \<leftarrow> rd tpr gid;
        ui \<leftarrow> rd unique_index gid;
        fpr' \<leftarrow> wr fpr gid (fdiv (fsub (fadd (Fin 1) (f32_of_int ui)) tp) neg_cnt);
        tpr' \<leftarrow> wr tpr gid (fdiv tp pos_cnt);
        create_fpr_loop sch tpr_in tpr' unique_index fpr' num_selected num_total (gid + 1)
      } else Some (tpr, fpr))"
  by pat_completeness auto
termination
  by (relation "measure (\<lambda>(sch, tpr_in, tpr, unique_index, fpr, num_selected, num_total, gid).
        nat (num_selected - gid))") auto

definition create_fpr_kernel ::
  "schedule \<Rightarrow> f32 list \<Rightarrow> int list \<Rightarrow> f32 list \<Rightarrow> int \<Rightarrow> int \<Rightarrow> (f32 list \<times> f32 list) option"
  where
  "create_fpr_kernel sch tpr unique_index fpr num_selected num_total = do {
     pos_cnt \<leftarrow> rd tpr (num_selected - 1);
     create_fpr_loop sch tpr tpr unique_index fpr num_selected num_total 0
   }"

text \<open>
  \<^verbatim>\<open>trapz_kernel\<close>: every block has a sum \<^verbatim>\<open>s_auc\<close> in shared memory, which starts at zero. A
  thread adds the area of each of its indices to the sum of its block with \<^verbatim>\<open>atomicAdd\<close>, and
  after the barrier the first thread of every block adds the sum of the block to \<^verbatim>\<open>*auc\<close>
  with \<^verbatim>\<open>atomicAdd\<close>. An atomic addition is one rounded addition; the additions to one sum
  happen one after the other, in the order of the schedule.
\<close>

definition trapz_area :: "f32 list \<Rightarrow> f32 list \<Rightarrow> int \<Rightarrow> f32 option" where
  "trapz_area y x gid = do {
     a \<leftarrow> rd x gid;
     b \<leftarrow> rd x (gid + 1);
     fa \<leftarrow> rd y gid;
     fb \<leftarrow> rd y (gid + 1);
     let area = fdiv (fmul (fsub b a) (fadd fa fb)) (Fin 2);
     Some (if gid = 0 then fadd area (fdiv (fmul a fa) (Fin 2)) else area)
   }"

fun trapz_adds :: "f32 list \<Rightarrow> f32 list \<Rightarrow> f32 \<Rightarrow> nat list \<Rightarrow> f32 option" where
  "trapz_adds y x s_auc [] = Some s_auc"
| "trapz_adds y x s_auc (gid # gids) = do {
     area \<leftarrow> trapz_area y x (int gid);
     trapz_adds y x (fadd s_auc area) gids
   }"

text \<open>The indices below \<open>num_selected - 1\<close> that the threads of the block \<open>b\<close> handle.\<close>

definition block_gids :: "int \<Rightarrow> nat \<Rightarrow> nat list" where
  "block_gids num_selected b = filter (\<lambda>gid. block_of gid = b) [0..<nat (num_selected - 1)]"

definition trapz_block :: "schedule \<Rightarrow> f32 list \<Rightarrow> f32 list \<Rightarrow> int \<Rightarrow> nat \<Rightarrow> f32 option" where
  "trapz_block sch y x num_selected b =
     trapz_adds y x (Fin 0) (sort_key (add_time sch) (block_gids num_selected b))"

fun trapz_blocks ::
  "schedule \<Rightarrow> f32 list \<Rightarrow> f32 list \<Rightarrow> f32 \<Rightarrow> int \<Rightarrow> nat list \<Rightarrow> f32 option" where
  "trapz_blocks sch y x auc num_selected [] = Some auc"
| "trapz_blocks sch y x auc num_selected (b # bs) = do {
     s_auc \<leftarrow> trapz_block sch y x num_selected b;
     trapz_blocks sch y x (fadd auc s_auc) num_selected bs
   }"

definition trapz_kernel :: "schedule \<Rightarrow> f32 list \<Rightarrow> f32 list \<Rightarrow> f32 \<Rightarrow> int \<Rightarrow> f32 option" where
  "trapz_kernel sch y x auc num_selected =
     trapz_blocks sch y x auc num_selected (sort_key (block_time sch) [0..<grid_dim])"

section \<open>The device-wide primitives of CUB\<close>

text \<open>
  The source calls three primitives of the CUB library: a key-value radix sort in descending
  key order, an inclusive prefix sum and a selection by flags. They are given here by their
  documented results. The sort is stable. It orders the keys by their bit patterns: negative
  infinity, the finite values in numeric order, positive infinity, NaN. A prefix sum of
  \<^verbatim>\<open>float\<close> values is taken from left to right; the library does not fix the order of the
  additions, and a sum of labels 0 and 1 of which at most \<open>2\<^sup>2\<^sup>4\<close> are 1 is the same in every
  order, since every partial sum is exact.
\<close>

fun key_class :: "f32 \<Rightarrow> nat" where
  "key_class NInf = 0"
| "key_class (Fin a) = 1"
| "key_class PInf = 2"
| "key_class NaN = 3"

fun key_val :: "f32 \<Rightarrow> rat" where
  "key_val (Fin a) = a"
| "key_val _ = 0"

definition key_less :: "f32 \<Rightarrow> f32 \<Rightarrow> bool" where
  "key_less x y \<longleftrightarrow>
     key_class x < key_class y \<or> (key_class x = key_class y \<and> key_val x < key_val y)"

fun insert_desc :: "f32 \<times> 'v \<Rightarrow> (f32 \<times> 'v) list \<Rightarrow> (f32 \<times> 'v) list" where
  "insert_desc p [] = [p]"
| "insert_desc p (q # qs) =
     (if key_less (fst p) (fst q) then q # insert_desc p qs else p # q # qs)"

definition sort_desc :: "(f32 \<times> 'v) list \<Rightarrow> (f32 \<times> 'v) list" where
  "sort_desc ps = foldr insert_desc ps []"

definition cub_SortPairsDescending ::
  "f32 list \<Rightarrow> f32 list \<Rightarrow> 'v list \<Rightarrow> 'v list \<Rightarrow> int \<Rightarrow> (f32 list \<times> 'v list) option" where
  "cub_SortPairsDescending keys_in keys_out values_in values_out num_items = do {
     ks \<leftarrow> prefix_of keys_in num_items;
     vs \<leftarrow> prefix_of values_in num_items;
     let sorted = sort_desc (zip ks vs);
     keys_out' \<leftarrow> store_prefix keys_out (map fst sorted);
     values_out' \<leftarrow> store_prefix values_out (map snd sorted);
     Some (keys_out', values_out')
   }"

fun scan_from :: "('a \<Rightarrow> 'a \<Rightarrow> 'a) \<Rightarrow> 'a \<Rightarrow> 'a list \<Rightarrow> 'a list" where
  "scan_from f acc [] = []"
| "scan_from f acc (x # xs) = f acc x # scan_from f (f acc x) xs"

fun inclusive_scan :: "('a \<Rightarrow> 'a \<Rightarrow> 'a) \<Rightarrow> 'a list \<Rightarrow> 'a list" where
  "inclusive_scan f [] = []"
| "inclusive_scan f (x # xs) = x # scan_from f x xs"

definition cub_InclusiveSum ::
  "('a \<Rightarrow> 'a \<Rightarrow> 'a) \<Rightarrow> 'a list \<Rightarrow> 'a list \<Rightarrow> int \<Rightarrow> 'a list option" where
  "cub_InclusiveSum add d_in d_out num_items = do {
     xs \<leftarrow> prefix_of d_in num_items;
     store_prefix d_out (inclusive_scan add xs)
   }"

definition select_flagged :: "'a list \<Rightarrow> int list \<Rightarrow> 'a list" where
  "select_flagged xs flags = map fst (filter (\<lambda>(x, f). f \<noteq> 0) (zip xs flags))"

definition cub_Flagged ::
  "'a list \<Rightarrow> int list \<Rightarrow> 'a list \<Rightarrow> int \<Rightarrow> ('a list \<times> int) option" where
  "cub_Flagged d_in d_flags d_out num_items = do {
     xs \<leftarrow> prefix_of d_in num_items;
     fs \<leftarrow> prefix_of d_flags num_items;
     let selected = select_flagged xs fs;
     d_out' \<leftarrow> store_prefix d_out selected;
     Some (d_out', int (length selected))
   }"

section \<open>The metric engines\<close>

text \<open>
  The engines are modelled as compiled without \<^verbatim>\<open>ENABLE_MPI\<close>: the collective operations
  between the preprocessor guards are absent, and what remains is the code of one process.
  The fields \<^verbatim>\<open>num_procs_\<close> and \<^verbatim>\<open>pid_\<close> stay in the state, since the code outside the guards
  reads them. A C++ \<^verbatim>\<open>int\<close> is an integer; a division by zero, which is undefined in the source,
  is \<open>None\<close>. Overflow of \<^verbatim>\<open>int\<close> arithmetic is undefined in the source and is not modelled:
  the element counts of an engine are bounded by the \<^verbatim>\<open>int\<close> capacity computed in its
  constructor.
\<close>

text \<open>
  Modelled from the spec: the class declarations of \<^verbatim>\<open>metrics.hpp\<close> are not part of the
  sources. The base class \<^verbatim>\<open>Metric\<close> holds the process count, the process id and the size of
  the current batch.
\<close>

record Metric =
  num_procs :: int
  pid :: int
  current_batch_size :: int

definition Metric_init :: Metric where
  "Metric_init = \<lparr>num_procs = 1, pid = 0, current_batch_size = 0\<rparr>"

subsection \<open>AverageLoss\<close>

record AverageLoss = Metric +
  loss_local :: "f32 list"
  loss_global :: f32
  loss_n_batches :: int

text \<open>The constructor, for \<open>local_gpu_count\<close> local devices.\<close>

definition AverageLoss_init :: "nat \<Rightarrow> AverageLoss" where
  "AverageLoss_init local_gpu_count =
     \<lparr>num_procs = 1, pid = 0, current_batch_size = 0,
      loss_local = replicate local_gpu_count (Fin 0), loss_global = Fin 0, loss_n_batches = 0\<rparr>"

text \<open>\<^verbatim>\<open>local_reduce\<close> copies the loss of the device, \<open>loss_host\<close>, into the slot of the device.\<close>

definition AverageLoss_local_reduce :: "AverageLoss \<Rightarrow> int \<Rightarrow> f32 \<Rightarrow> AverageLoss option" where
  "AverageLoss_local_reduce s local_gpu_id loss_host = do {
     loss_local' \<leftarrow> wr (loss_local s) local_gpu_id loss_host;
     Some (s\<lparr>loss_local := loss_local'\<rparr>)
   }"

definition AverageLoss_global_reduce :: "AverageLoss \<Rightarrow> int \<Rightarrow> AverageLoss" where
  "AverageLoss_global_reduce s n_nets =
     (let loss_inter = foldl fadd (Fin 0) (loss_local s)
      in s\<lparr>loss_global :=
              fadd (loss_global s)
                (fdiv (fdiv loss_inter (f32_of_int n_nets)) (f32_of_int (num_procs s))),
            loss_n_batches := loss_n_batches s + 1\<rparr>)"

definition AverageLoss_finalize_metric :: "AverageLoss \<Rightarrow> f32 \<times> AverageLoss" where
  "AverageLoss_finalize_metric s =
     (let ret = (if pid s = 0 \<and> loss_n_batches s \<noteq> 0
                 then fdiv (loss_global s) (f32_of_int (loss_n_batches s)) else Fin 0)
      in (ret, s\<lparr>loss_global := Fin 0,
                 loss_local := map (\<lambda>loss_local. Fin 0) (loss_local s),
                 loss_n_batches := 0\<rparr>))"

subsection \<open>AUC\<close>

text \<open>
  Modelled from the spec: the accessors \<^verbatim>\<open>d_pred()\<close>, \<^verbatim>\<open>d_label()\<close>, \<^verbatim>\<open>d_pred_sort()\<close>,
  \<^verbatim>\<open>d_label_sort()\<close>, \<^verbatim>\<open>d_inc_sum()\<close>, \<^verbatim>\<open>tpr()\<close>, \<^verbatim>\<open>fpr()\<close>, \<^verbatim>\<open>d_flag_inc_sum()\<close>,
  \<^verbatim>\<open>d_unique_index()\<close> and \<^verbatim>\<open>d_auc()\<close> are declared in \<^verbatim>\<open>metrics.hpp\<close>, which is not part of
  the sources. The constructor allocates four buffers of the capacity of a pass, \<^verbatim>\<open>temp0_\<close> to
  \<^verbatim>\<open>temp3_\<close>, and the workspace, and the accessors name arrays inside them; which arrays
  share a buffer is not visible in the sources. The data model of the specification lists
  \<open>pred\<close>, \<open>label\<close>, \<open>pred_sorted\<close> and \<open>label_sorted\<close> as arrays of their own, and every
  accessor is an array of its own here, as are the flag array and the selected count that
  \<^verbatim>\<open>finalize_metric\<close> places in the workspace. A stage of \<^verbatim>\<open>finalize_metric\<close> reads only what
  the ingestion or an earlier stage of the same call has written, so the values that the
  stages compute are those of every assignment of the arrays to the buffers under which the
  pipeline works. What an array holds once a later stage has written another array can
  differ from the model where the two share a buffer. The resource manager is the list of
  the device ids of the local devices.
\<close>

record AUC = Metric +
  resource_manager :: "int list"
  batch_size_per_gpu :: int
  n_batches :: int
  root_device_id :: int
  num_gpus :: int
  offset :: int
  d_pred :: "f32 list"
  d_label :: "f32 list"
  d_pred_sort :: "f32 list"
  d_label_sort :: "f32 list"
  d_inc_sum :: "f32 list"
  tpr :: "f32 list"
  fpr :: "f32 list"
  d_flag :: "int list"
  d_flag_inc_sum :: "int list"
  d_unique_index :: "int list"
  d_num_selected_out :: int
  d_auc :: f32

text \<open>
  The constructor of a single process: every buffer holds
  \<^verbatim>\<open>batch_size_per_gpu * n_batches * num_gpus\<close> elements. The content of fresh device memory
  is not specified; it is zero here.
\<close>

definition AUC_init :: "int \<Rightarrow> int \<Rightarrow> int list \<Rightarrow> AUC" where
  "AUC_init batch_size_per_gpu' n_batches' devices =
     (let num_elems = nat (batch_size_per_gpu' * n_batches' * int (length devices))
      in \<lparr>num_procs = 1, pid = 0, current_batch_size = 0,
          resource_manager = devices,
          batch_size_per_gpu = batch_size_per_gpu',
          n_batches = n_batches',
          root_device_id = (case devices of [] \<Rightarrow> 0 | d # _ \<Rightarrow> d),
          num_gpus = int (length devices),
          offset = 0,
          d_pred = replicate num_elems (Fin 0),
          d_label = replicate num_elems (Fin 0),
          d_pred_sort = replicate num_elems (Fin 0),
          d_label_sort = replicate num_elems (Fin 0),
          d_inc_sum = replicate num_elems (Fin 0),
          tpr = replicate num_elems (Fin 0),
          fpr = replicate num_elems (Fin 0),
          d_flag = replicate num_elems 0,
          d_flag_inc_sum = replicate num_elems 0,
          d_unique_index = replicate num_elems 0,
          d_num_selected_out = 0,
          d_auc = Fin 0\<rparr>)"

definition num_active_gpu_and_r :: "AUC \<Rightarrow> (int \<times> int) option" where
  "num_active_gpu_and_r s =
     (if batch_size_per_gpu s * num_procs s = 0 then None
      else Some (current_batch_size s sdiv (batch_size_per_gpu s * num_procs s),
                 current_batch_size s smod (batch_size_per_gpu s * num_procs s)))"

text \<open>
  \<^verbatim>\<open>copy_all<float>\<close>: two device-to-device copies of \<open>num_elems\<close> values, to the position
  \<open>offset\<close> of the two destination buffers.
\<close>

definition copy_pred :: "f32 list \<Rightarrow> int \<Rightarrow> f32 list \<Rightarrow> int \<Rightarrow> f32 list option" where
  "copy_pred y offset' x num_elems =
     (if 0 \<le> offset' \<and> 0 \<le> num_elems \<and> offset' + num_elems \<le> int (length y)
         \<and> num_elems \<le> int (length x)
      then Some (take (nat offset') y @ take (nat num_elems) x @ drop (nat (offset' + num_elems)) y)
      else None)"

definition copy_all ::
  "f32 list \<Rightarrow> f32 list \<Rightarrow> int \<Rightarrow> f32 list \<Rightarrow> f32 list \<Rightarrow> int \<Rightarrow> (f32 list \<times> f32 list) option"
  where
  "copy_all y_pred y_label offset' x_pred x_label num_elems = do {
     y_pred' \<leftarrow> copy_pred y_pred offset' x_pred num_elems;
     y_label' \<leftarrow> copy_pred y_label offset' x_label num_elems;
     Some (y_pred', y_label')
   }"

definition AUC_local_reduce :: "AUC \<Rightarrow> int \<Rightarrow> f32 list \<Rightarrow> f32 list \<Rightarrow> AUC option" where
  "AUC_local_reduce s local_gpu_id pred_tensor label_tensor = do {
     device_id \<leftarrow> rd (resource_manager s) local_gpu_id;
     (num_active_gpu0, r) \<leftarrow> num_active_gpu_and_r s;
     let num_active_gpu = (if r \<noteq> 0 then num_active_gpu0 + 1 else num_active_gpu0);
     if device_id < num_active_gpu then do {
       let num_elems =
         (if r \<noteq> 0 \<and> device_id = num_active_gpu - 1 then r else batch_size_per_gpu s);
       let offset' = offset s + batch_size_per_gpu s * device_id;
       (d_pred', d_label') \<leftarrow>
         copy_all (d_pred s) (d_label s) offset' pred_tensor label_tensor num_elems;
       Some (s\<lparr>d_pred := d_pred', d_label := d_label'\<rparr>)
     } else Some s
   }"

definition AUC_global_reduce :: "AUC \<Rightarrow> int \<Rightarrow> AUC option" where
  "AUC_global_reduce s n_nets = do {
     (num_active_gpu, r) \<leftarrow> num_active_gpu_and_r s;
     Some (s\<lparr>offset := offset s + (batch_size_per_gpu s * num_active_gpu + r)\<rparr>)
   }"

text \<open>
  Modelled from the spec: \<^verbatim>\<open>initialize_array\<close> is declared in \<^verbatim>\<open>utils.cuh\<close>, which is not part
  of the sources; it sets every element of an array to a value.
\<close>

definition initialize_array :: "f32 \<Rightarrow> f32 \<Rightarrow> f32" where
  "initialize_array a v = v"

text \<open>
  \<^verbatim>\<open>finalize_metric\<close>. The schedule \<open>sch\<close> is the order in which the device runs the threads
  of \<^verbatim>\<open>create_fpr_kernel\<close> and \<^verbatim>\<open>trapz_kernel\<close> in this call.
\<close>

definition AUC_finalize_metric :: "schedule \<Rightarrow> AUC \<Rightarrow> (f32 \<times> AUC) option" where
  "AUC_finalize_metric sch s =
     (if pid s = 0 then do {
        let num_elems = offset s * num_procs s;
        (pred_sort, label_sort) \<leftarrow>
          cub_SortPairsDescending (d_pred s) (d_pred_sort s) (d_label s) (d_label_sort s) num_elems;
        flag \<leftarrow> unique_flag_kernel pred_sort (d_flag s) num_elems;
        inc_sum \<leftarrow> cub_InclusiveSum fadd label_sort (d_inc_sum s) num_elems;
        (tpr0, num_selected) \<leftarrow> cub_Flagged inc_sum flag (tpr s) num_elems;
        flag_inc_sum \<leftarrow> cub_InclusiveSum (+) flag (d_flag_inc_sum s) num_elems;
        unique_index \<leftarrow> unique_index_kernel flag flag_inc_sum (d_unique_index s) num_elems;
        (tpr1, fpr1) \<leftarrow> create_fpr_kernel sch tpr0 unique_index (fpr s) num_selected num_elems;
        let auc0 = initialize_array (d_auc s) (Fin 0);
        auc \<leftarrow> trapz_kernel sch tpr1 fpr1 auc0 num_selected;
        Some (auc,
          s\<lparr>offset := 0, d_pred_sort := pred_sort, d_label_sort := label_sort, d_flag := flag,
            d_inc_sum := inc_sum, tpr := tpr1, fpr := fpr1, d_num_selected_out := num_selected,
            d_flag_inc_sum := flag_inc_sum, d_unique_index := unique_index, d_auc := auc\<rparr>)
      } else Some (d_auc s, s\<lparr>offset := 0\<rparr>))"

section \<open>Example inputs\<close>

text \<open>Three devices report the losses 1, 2 and 3 to a fresh AverageLoss engine.\<close>

definition loss_example :: "AverageLoss option" where
  "loss_example = do {
     s1 \<leftarrow> AverageLoss_local_reduce (AverageLoss_init 3) 0 (Fin 1);
     s2 \<leftarrow> AverageLoss_local_reduce s1 1 (Fin 2);
     AverageLoss_local_reduce s2 2 (Fin 3)
   }"

section \<open>Notions and inputs of the theorems\<close>

text \<open>
  The content of a buffer after \<open>k\<close> values of \<open>src\<close> have been written at the position
  \<open>off\<close>.
\<close>

definition write_range :: "'a list \<Rightarrow> int \<Rightarrow> 'a list \<Rightarrow> int \<Rightarrow> 'a list" where
  "write_range old off src k = take (nat off) old @ take (nat k) src @ drop (nat (off + k)) old"

text \<open>
  An engine whose three local devices are the devices 2, 0 and 1 in this order, with four
  samples per device, at the start of a pass whose batch holds six samples; and the
  predictions and labels of a device.
\<close>

definition device_state :: AUC where
  "device_state = (AUC_init 4 1 [2, 0, 1])\<lparr>current_batch_size := 6\<rparr>"

definition device_pred :: "f32 list" where
  "device_pred = [Fin (1 / 2), Fin (1 / 4), Fin (1 / 8), Fin (1 / 16)]"

definition device_label :: "f32 list" where
  "device_label = [Fin 1, Fin 0, Fin 1, Fin 0]"

text \<open>The flag that \<^verbatim>\<open>unique_flag_kernel\<close> computes for a position before the last one.\<close>

definition flag_at :: "f32 list \<Rightarrow> nat \<Rightarrow> int" where
  "flag_at data i = (if fgt (fsub (data ! i) (data ! (i + 1))) eps then 1 else 0)"

text \<open>Three sorted predictions, the last two tied.\<close>

definition tie_pred :: "f32 list" where
  "tie_pred = [rnd32 (9 / 10), rnd32 (8 / 10), rnd32 (8 / 10)]"

text \<open>
  The trapezoidal rule in the words of the specification, in single-precision arithmetic:
  the area of the segment between two consecutive points, the triangle between the origin
  and the first point, and the term of a segment, which for the first segment holds the
  triangle too.
\<close>

definition segment_area :: "f32 list \<Rightarrow> f32 list \<Rightarrow> nat \<Rightarrow> f32" where
  "segment_area x y i =
     fdiv (fmul (fsub (x ! (i + 1)) (x ! i)) (fadd (y ! i) (y ! (i + 1)))) (Fin 2)"

definition origin_triangle :: "f32 list \<Rightarrow> f32 list \<Rightarrow> f32" where
  "origin_triangle x y = fdiv (fmul (x ! 0) (y ! 0)) (Fin 2)"

definition trapezoid_term :: "f32 list \<Rightarrow> f32 list \<Rightarrow> nat \<Rightarrow> f32" where
  "trapezoid_term x y i =
     (if i = 0 then fadd (segment_area x y 0) (origin_triangle x y) else segment_area x y i)"

text \<open>
  The sum of the terms of \<open>k\<close> points as a schedule adds them: the segments of a block in the
  order of their additions, the blocks in the order of theirs, the sum of the segments of
  every block, and the sum of the block sums.
\<close>

definition block_adds :: "schedule \<Rightarrow> nat \<Rightarrow> nat \<Rightarrow> nat list" where
  "block_adds sch k b = sort_key (add_time sch) (filter (\<lambda>i. block_of i = b) [0..<k - 1])"

definition block_order :: "schedule \<Rightarrow> nat list" where
  "block_order sch = sort_key (block_time sch) [0..<grid_dim]"

definition block_sum :: "schedule \<Rightarrow> f32 list \<Rightarrow> f32 list \<Rightarrow> nat \<Rightarrow> nat \<Rightarrow> f32" where
  "block_sum sch x y k b = foldl fadd (Fin 0) (map (trapezoid_term x y) (block_adds sch k b))"

definition trapezoid_sum :: "schedule \<Rightarrow> f32 list \<Rightarrow> f32 list \<Rightarrow> nat \<Rightarrow> f32" where
  "trapezoid_sum sch x y k = foldl fadd (Fin 0) (map (block_sum sch x y k) (block_order sch))"

definition flags_of :: "f32 list \<Rightarrow> nat \<Rightarrow> int list" where
  "flags_of data n = map (flag_at data) [0..<n - 1] @ [1]"

definition flagged_idx :: "int list \<Rightarrow> nat list" where
  "flagged_idx flags = filter (\<lambda>i. flags ! i \<noteq> 0) [0..<length flags]"

definition flag_count :: "int list \<Rightarrow> nat \<Rightarrow> nat" where
  "flag_count flags k = length (filter (\<lambda>j. flags ! j \<noteq> 0) [0..<k])"

text \<open>
  The stages of \<^verbatim>\<open>finalize_metric\<close> as functions of the sorted predictions \<open>ps\<close> and the
  sorted labels \<open>ls\<close>: the cumulative label sums, the flagged positions, the two totals, and
  the two rates at every flagged position as the specification derives them from the
  totals.
\<close>

definition cum_labels :: "f32 list \<Rightarrow> f32 list" where
  "cum_labels ls = inclusive_scan fadd ls"

definition roc_points :: "f32 list \<Rightarrow> nat list" where
  "roc_points ps = flagged_idx (flags_of ps (length ps))"

definition total_pos :: "f32 list \<Rightarrow> f32" where
  "total_pos ls = cum_labels ls ! (length ls - 1)"

definition total_neg :: "f32 list \<Rightarrow> f32" where
  "total_neg ls = fsub (f32_of_int (int (length ls))) (total_pos ls)"

definition roc_tpr :: "f32 list \<Rightarrow> f32 list \<Rightarrow> f32 list" where
  "roc_tpr ps ls = map (\<lambda>i. fdiv (cum_labels ls ! i) (total_pos ls)) (roc_points ps)"

definition roc_fpr :: "f32 list \<Rightarrow> f32 list \<Rightarrow> f32 list" where
  "roc_fpr ps ls =
     map (\<lambda>i. fdiv (fsub (fadd (Fin 1) (f32_of_int (int i))) (cum_labels ls ! i)) (total_neg ls))
       (roc_points ps)"

text \<open>
  The rates as a schedule of \<^verbatim>\<open>create_fpr_kernel\<close> gives them: the thread of the compacted
  point \<open>j\<close> of \<open>k\<close> divides by the total of the positives that it has read, and takes the
  total of the negatives from it. The schedule is in time when no thread reads late.
\<close>

definition pos_read :: "schedule \<Rightarrow> nat \<Rightarrow> f32 list \<Rightarrow> nat \<Rightarrow> f32" where
  "pos_read sch k ls j =
     (if reads_late sch (int k) (int j) then fdiv (total_pos ls) (total_pos ls) else total_pos ls)"

definition sched_tpr :: "schedule \<Rightarrow> f32 list \<Rightarrow> f32 list \<Rightarrow> f32 list" where
  "sched_tpr sch ps ls =
     map (\<lambda>j. fdiv (cum_labels ls ! (roc_points ps ! j)) (pos_read sch (length (roc_points ps)) ls j))
       [0..<length (roc_points ps)]"

definition sched_fpr :: "schedule \<Rightarrow> f32 list \<Rightarrow> f32 list \<Rightarrow> f32 list" where
  "sched_fpr sch ps ls =
     map (\<lambda>j. fdiv (fsub (fadd (Fin 1) (f32_of_int (int (roc_points ps ! j))))
                       (cum_labels ls ! (roc_points ps ! j)))
                (fsub (f32_of_int (int (length ls))) (pos_read sch (length (roc_points ps)) ls j)))
       [0..<length (roc_points ps)]"

definition in_time :: "schedule \<Rightarrow> nat \<Rightarrow> bool" where
  "in_time sch k = list_all (\<lambda>j. \<not> reads_late sch (int k) (int j)) [0..<k]"

definition roc_auc :: "schedule \<Rightarrow> f32 list \<Rightarrow> f32 list \<Rightarrow> f32" where
  "roc_auc sch ps ls =
     trapezoid_sum sch (sched_fpr sch ps ls) (sched_tpr sch ps ls) (length (roc_points ps))"

text \<open>
  The example of the specification: four samples, ingested by an engine of one device in one
  batch and reduced.
\<close>

definition example_pred :: "f32 list" where
  "example_pred = [rnd32 (9 / 10), rnd32 (8 / 10), rnd32 (7 / 10), rnd32 (6 / 10)]"

definition example_label :: "f32 list" where
  "example_label = [Fin 1, Fin 0, Fin 1, Fin 0]"

definition example_run :: "AUC option" where
  "example_run = do {
     s \<leftarrow> AUC_local_reduce ((AUC_init 4 1 [0])\<lparr>current_batch_size := 4\<rparr>) 0
            example_pred example_label;
     AUC_global_reduce s 1
   }"

text \<open>The state of the engine after the reduce.\<close>

definition example_state :: AUC where
  "example_state = (AUC_init 4 1 [0])
     \<lparr>current_batch_size := 4, offset := 4, d_pred := example_pred, d_label := example_label\<rparr>"

text \<open>
  Every buffer of the engine holds at least \<open>n\<close> elements; the constructor allocates the
  buffers for the samples of a whole pass.
\<close>

definition capacity_ok :: "AUC \<Rightarrow> nat \<Rightarrow> bool" where
  "capacity_ok s n \<longleftrightarrow>
     n \<le> length (d_pred s) \<and> n \<le> length (d_label s) \<and> n \<le> length (d_pred_sort s)
     \<and> n \<le> length (d_label_sort s) \<and> n \<le> length (d_inc_sum s) \<and> n \<le> length (tpr s)
     \<and> n \<le> length (fpr s) \<and> n \<le> length (d_flag s) \<and> n \<le> length (d_flag_inc_sum s)
     \<and> n \<le> length (d_unique_index s)"

text \<open>The first \<open>n\<close> samples of the engine after the sort.\<close>

definition sorted_preds :: "AUC \<Rightarrow> nat \<Rightarrow> f32 list" where
  "sorted_preds s n = map fst (sort_desc (zip (take n (d_pred s)) (take n (d_label s))))"

definition sorted_labels :: "AUC \<Rightarrow> nat \<Rightarrow> f32 list" where
  "sorted_labels s n = map snd (sort_desc (zip (take n (d_pred s)) (take n (d_label s))))"

text \<open>An array is cleared when every element of it is zero.\<close>

definition cleared :: "f32 list \<Rightarrow> bool" where
  "cleared buf = list_all (\<lambda>x. x = Fin 0) buf"

definition cleared_int :: "int list \<Rightarrow> bool" where
  "cleared_int buf = list_all (\<lambda>x. x = 0) buf"

text \<open>The state that \<^verbatim>\<open>finalize_metric\<close> leaves on the root process.\<close>

definition finalized :: "schedule \<Rightarrow> AUC \<Rightarrow> nat \<Rightarrow> AUC" where
  "finalized sch s n =
     (let ps = sorted_preds s n; ls = sorted_labels s n; k = length (roc_points ps)
      in s\<lparr>offset := 0,
           d_pred_sort := ps @ drop n (d_pred_sort s),
           d_label_sort := ls @ drop n (d_label_sort s),
           d_flag := flags_of ps n @ drop n (d_flag s),
           d_inc_sum := cum_labels ls @ drop n (d_inc_sum s),
           tpr := sched_tpr sch ps ls @ drop k (tpr s),
           fpr := sched_fpr sch ps ls @ drop k (fpr s),
           d_num_selected_out := int k,
           d_flag_inc_sum := inclusive_scan (+) (flags_of ps n) @ drop n (d_flag_inc_sum s),
           d_unique_index := map int (roc_points ps) @ drop k (d_unique_index s),
           d_auc := roc_auc sch ps ls\<rparr>)"

text \<open>Labels that are all 0 or 1, the number of the labels 1, and a monotone sequence.\<close>

definition binary_labels :: "f32 list \<Rightarrow> bool" where
  "binary_labels ls = list_all (\<lambda>x. x = Fin 0 \<or> x = Fin 1) ls"

definition ones :: "f32 list \<Rightarrow> nat" where
  "ones ls = length (filter (\<lambda>x. x = Fin 1) ls)"

fun nondecreasing :: "f32 list \<Rightarrow> bool" where
  "nondecreasing (x # y # zs) = (fle x y \<and> nondecreasing (y # zs))"
| "nondecreasing _ = True"

text \<open>A value that is a number other than zero, and a value that is a number.\<close>

fun nonzero :: "f32 \<Rightarrow> bool" where
  "nonzero (Fin a) = (a \<noteq> 0)"
| "nonzero _ = False"

fun is_number :: "f32 \<Rightarrow> bool" where
  "is_number (Fin a) = True"
| "is_number _ = False"

text \<open>Two samples with distinct predictions and no positive label, after the reduce.\<close>

definition negatives_state :: AUC where
  "negatives_state = (AUC_init 2 1 [0])
     \<lparr>current_batch_size := 2, offset := 2,
      d_pred := [rnd32 (9 / 10), rnd32 (8 / 10)], d_label := [Fin 0, Fin 0]\<rparr>"

text \<open>A single sample with the label 1, after the reduce.\<close>

definition single_state :: AUC where
  "single_state = (AUC_init 1 1 [0])
     \<lparr>current_batch_size := 1, offset := 1, d_pred := [rnd32 (9 / 10)], d_label := [Fin 1]\<rparr>"

text \<open>Two samples with distinct predictions and no negative label, after the reduce.\<close>

definition positives_state :: AUC where
  "positives_state = (AUC_init 2 1 [0])
     \<lparr>current_batch_size := 2, offset := 2,
      d_pred := [rnd32 (9 / 10), rnd32 (8 / 10)], d_label := [Fin 1, Fin 1]\<rparr>"

text \<open>Two samples with the same prediction, one positive and one negative, after the reduce.\<close>

definition tied_state :: AUC where
  "tied_state = (AUC_init 2 1 [0])
     \<lparr>current_batch_size := 2, offset := 2,
      d_pred := [rnd32 (1 / 2), rnd32 (1 / 2)], d_label := [Fin 1, Fin 0]\<rparr>"

text \<open>
  A pass of 33 samples with the distinct predictions \<open>64/64, 63/64, \<dots>, 32/64\<close>, of which
  the first two are positive, after the reduce; and a schedule in which the first warp of
  \<^verbatim>\<open>create_fpr_kernel\<close> starts after the second warp, which handles the last compacted point,
  has finished.
\<close>

definition race_n :: nat where
  "race_n = 33"

definition race_pred :: "f32 list" where
  "race_pred = map (\<lambda>i. Fin (of_nat (64 - i) / 64)) [0..<race_n]"

definition race_label :: "f32 list" where
  "race_label = Fin 1 # Fin 1 # replicate (race_n - 2) (Fin 0)"

definition race_state :: AUC where
  "race_state = (AUC_init (int race_n) 1 [0])
     \<lparr>current_batch_size := int race_n, offset := int race_n,
      d_pred := race_pred, d_label := race_label\<rparr>"

definition race_sched :: schedule where
  "race_sched = in_order\<lparr>late_warp := (\<lambda>w. w = 0)\<rparr>"

text \<open>
  A pass of \<open>2\<^sup>2\<^sup>4 + 1\<close> samples: \<open>2\<^sup>2\<^sup>4\<close> negative samples with the prediction 0.75, and one
  positive sample with the prediction 0.5.
\<close>

definition wide_n :: nat where
  "wide_n = 16777217"

definition wide_pred :: "f32 list" where
  "wide_pred = replicate (wide_n - 1) (Fin (3 / 4)) @ [Fin (1 / 2)]"

definition wide_label :: "f32 list" where
  "wide_label = replicate (wide_n - 1) (Fin 0) @ [Fin 1]"

definition wide_state :: AUC where
  "wide_state = (AUC_init (int wide_n) 1 [0])
     \<lparr>current_batch_size := int wide_n, offset := int wide_n,
      d_pred := wide_pred, d_label := wide_label\<rparr>"

text \<open>
  A pass of \<open>2\<^sup>2\<^sup>4 + 2\<close> samples that all have the same prediction; the first label is 1 and the
  others are 0.
\<close>

definition big_n :: nat where
  "big_n = 16777218"

definition big_pred :: "f32 list" where
  "big_pred = replicate big_n (rnd32 (1 / 2))"

definition big_label :: "f32 list" where
  "big_label = Fin 1 # replicate (big_n - 1) (Fin 0)"

definition big_state :: AUC where
  "big_state = (AUC_init (int big_n) 1 [0])
     \<lparr>current_batch_size := int big_n, offset := int big_n,
      d_pred := big_pred, d_label := big_label\<rparr>"

section \<open>Properties of the arithmetic\<close>

lemma pow2_powi: "pow2 e = 2 powi e"
  by (simp add: pow2_def power_int_def inverse_eq_divide power_one_over)

lemma pow2_pos: "0 < pow2 e"
  by (simp add: pow2_powi zero_less_power_int)

lemma pow2_add: "pow2 (a + b) = pow2 a * pow2 b"
  by (simp add: pow2_powi power_int_add)

lemma pow2_mono: "a \<le> b \<Longrightarrow> pow2 a \<le> pow2 b"
  by (simp add: pow2_powi power_int_increasing)

lemma expo_ge: "- 126 \<le> expo a"
  by (simp add: expo_def)

lemma expo_upper: "a < pow2 (expo a + 1)"
proof (cases "0 < \<lfloor>a * 2 ^ 149\<rfloor>")
  case False
  then have "a * 2 ^ 149 < 1" by linarith
  then have "a < 1 / 2 ^ 149" by (simp add: pos_less_divide_eq)
  also have "\<dots> = pow2 (- 149)" by (simp add: pow2_def)
  also have "\<dots> \<le> pow2 (expo a + 1)" using expo_ge [of a] by (intro pow2_mono) simp
  finally show ?thesis .
next
  case True
  define m where "m = \<lfloor>a * 2 ^ 149\<rfloor>"
  define b where "b = bitlen m"
  from True have mpos: "0 < m" by (simp add: m_def)
  from bitlen_bounds [OF mpos] have ub: "m < 2 ^ nat b" by (simp add: b_def)
  have bnn: "0 \<le> b" by (simp add: b_def bitlen_nonneg)
  have "a * 2 ^ 149 < of_int m + 1" unfolding m_def by (rule floor_correct [THEN conjunct2, simplified])
  also have "of_int m + (1::rat) = of_int (m + 1)" by simp
  also have "\<dots> \<le> of_int (2 ^ nat b)" using ub by (intro of_int_le_iff [THEN iffD2]) simp
  also have "\<dots> = pow2 b" using bnn by (simp add: pow2_def)
  finally have "a * 2 ^ 149 < pow2 b" .
  then have "a < pow2 b / 2 ^ 149" by (simp add: pos_less_divide_eq)
  also have "\<dots> = pow2 b * pow2 (- 149)" by (simp add: pow2_def)
  also have "\<dots> = pow2 (b - 149)" by (simp add: pow2_add [symmetric])
  also have "\<dots> \<le> pow2 (expo a + 1)"
  proof (rule pow2_mono)
    have "expo a = max (- 126) (b - 150)" unfolding expo_def b_def m_def by (rule refl)
    then show "b - 149 \<le> expo a + 1" by simp
  qed
  finally show ?thesis .
qed

lemma expo_lower:
  assumes "- 126 < expo a"
  shows "pow2 (expo a) \<le> a"
proof -
  define m where "m = \<lfloor>a * 2 ^ 149\<rfloor>"
  define b where "b = bitlen m"
  have "expo a = max (- 126) (b - 150)" unfolding expo_def b_def m_def by (rule refl)
  with assms have e: "expo a = b - 150" and big: "- 126 < b - 150"
    by (simp_all add: max_def split: if_splits)
  then have "0 < b" by simp
  then have mpos: "0 < m" using bitlen_eq_zero_iff [of m] bitlen_nonneg [of m]
    by (cases "0 < m") (simp_all add: b_def)
  from bitlen_bounds [OF mpos] have lb: "2 ^ nat (b - 1) \<le> m" by (simp add: b_def)
  have "pow2 (b - 1) = of_int (2 ^ nat (b - 1))" using \<open>0 < b\<close> by (simp add: pow2_def)
  also have "\<dots> \<le> of_int m" using lb by (intro of_int_le_iff [THEN iffD2])
  also have "\<dots> \<le> a * 2 ^ 149" unfolding m_def by (rule of_int_floor_le)
  finally have "pow2 (b - 1) / 2 ^ 149 \<le> a" by (simp add: pos_divide_le_eq)
  moreover have "pow2 (b - 1) / 2 ^ 149 = pow2 (b - 1) * pow2 (- 149)" by (simp add: pow2_def)
  moreover have "\<dots> = pow2 (b - 150)" by (simp add: pow2_add [symmetric])
  ultimately show ?thesis by (simp add: e)
qed

lemma expo_unique:
  assumes "- 126 \<le> e" and "a < pow2 (e + 1)" and "e = - 126 \<or> pow2 e \<le> a"
  shows "expo a = e"
proof (rule antisym)
  show "expo a \<le> e"
  proof (rule ccontr)
    assume "\<not> expo a \<le> e"
    then have gt: "e + 1 \<le> expo a" by simp
    with assms(1) have "- 126 < expo a" by simp
    then have "pow2 (expo a) \<le> a" by (rule expo_lower)
    moreover have "pow2 (e + 1) \<le> pow2 (expo a)" using gt by (rule pow2_mono)
    ultimately show False using assms(2) by simp
  qed
  show "e \<le> expo a"
  proof (rule ccontr)
    assume "\<not> e \<le> expo a"
    then have lt: "expo a + 1 \<le> e" by simp
    with expo_ge [of a] have "e \<noteq> - 126" by simp
    with assms(3) have "pow2 e \<le> a" by simp
    moreover have "pow2 (expo a + 1) \<le> pow2 e" using lt by (rule pow2_mono)
    ultimately show False using expo_upper [of a] by simp
  qed
qed

lemma expo_mono:
  assumes "a \<le> b"
  shows "expo a \<le> expo b"
proof (rule ccontr)
  assume "\<not> expo a \<le> expo b"
  then have gt: "expo b + 1 \<le> expo a" by simp
  with expo_ge [of b] have "- 126 < expo a" by simp
  then have "pow2 (expo a) \<le> a" by (rule expo_lower)
  moreover have "pow2 (expo b + 1) \<le> pow2 (expo a)" using gt by (rule pow2_mono)
  ultimately show False using expo_upper [of b] assms by simp
qed

lemma rhe_of_int: "rhe (of_int k) = k"
  by (simp add: rhe_def)

lemma rhe_mono:
  assumes "x \<le> y"
  shows "rhe x \<le> rhe y"
proof (cases "\<lfloor>x\<rfloor> = \<lfloor>y\<rfloor>")
  case True
  with assms show ?thesis by (auto simp: rhe_def Let_def)
next
  case False
  with assms have "\<lfloor>x\<rfloor> + 1 \<le> \<lfloor>y\<rfloor>" using floor_mono [OF assms] by simp
  moreover have "rhe x \<le> \<lfloor>x\<rfloor> + 1" by (simp add: rhe_def Let_def)
  moreover have "\<lfloor>y\<rfloor> \<le> rhe y" by (simp add: rhe_def Let_def)
  ultimately show ?thesis by linarith
qed

lemma rhe_le: "x \<le> of_int k \<Longrightarrow> rhe x \<le> k"
  using rhe_mono [of x "of_int k"] by (simp add: rhe_of_int)

lemma rhe_ge: "of_int k \<le> x \<Longrightarrow> k \<le> rhe x"
  using rhe_mono [of "of_int k" x] by (simp add: rhe_of_int)

lemma pow2_split: "pow2 (e + 1) = 2 ^ 24 * pow2 (e - 23)" "pow2 e = 2 ^ 23 * pow2 (e - 23)"
proof -
  have eq: "24 + (e - 23) = e + 1" "23 + (e - 23) = e" by simp_all
  have p: "pow2 24 = 2 ^ 24" "pow2 23 = 2 ^ 23" by (simp_all add: pow2_def)
  show "pow2 (e + 1) = 2 ^ 24 * pow2 (e - 23)"
    using pow2_add [of 24 "e - 23"] unfolding eq p .
  show "pow2 e = 2 ^ 23 * pow2 (e - 23)"
    using pow2_add [of 23 "e - 23"] unfolding eq p .
qed

lemma rhe_scale_le:
  assumes "0 < u" and "a < of_int c * u"
  shows "of_int (rhe (a / u)) * u \<le> of_int c * u"
proof -
  from assms have "a / u < of_int c" by (simp only: pos_divide_less_eq)
  then have "a / u \<le> of_int c" by (rule less_imp_le)
  then have "rhe (a / u) \<le> c" by (rule rhe_le)
  then have "(of_int (rhe (a / u)) :: rat) \<le> of_int c" by (simp only: of_int_le_iff)
  then show ?thesis using assms(1) by (simp only: mult_right_mono less_imp_le)
qed

lemma rhe_scale_ge:
  assumes "0 < u" and "of_int c * u \<le> a"
  shows "of_int c * u \<le> of_int (rhe (a / u)) * u"
proof -
  from assms have "of_int c \<le> a / u" by (simp only: pos_le_divide_eq)
  then have "c \<le> rhe (a / u)" by (rule rhe_ge)
  then have "(of_int c :: rat) \<le> of_int (rhe (a / u))" by (simp only: of_int_le_iff)
  then show ?thesis using assms(1) by (simp only: mult_right_mono less_imp_le)
qed

lemma pow2_split_int:
  "pow2 (e + 1) = of_int (2 ^ 24) * pow2 (e - 23)" "pow2 e = of_int (2 ^ 23) * pow2 (e - 23)"
  using pow2_split [of e] by simp_all

lemma rnd_mag_upper: "rnd_mag a \<le> pow2 (expo a + 1)"
  unfolding rnd_mag_def pow2_split_int(1) [of "expo a"]
  by (rule rhe_scale_le [OF pow2_pos]) (rule expo_upper [of a, unfolded pow2_split_int(1)])

lemma rnd_mag_lower:
  assumes "- 126 < expo a"
  shows "pow2 (expo a) \<le> rnd_mag a"
  unfolding rnd_mag_def
  using rhe_scale_ge [OF pow2_pos expo_lower [OF assms, unfolded pow2_split_int(2) [of "expo a"]]]
  unfolding pow2_split_int(2) [of "expo a", symmetric] .

lemma rnd_mag_mono:
  assumes "a \<le> b"
  shows "rnd_mag a \<le> rnd_mag b"
proof (cases "expo a = expo b")
  case True
  define u where "u = pow2 (expo b - 23)"
  have upos: "0 < u" by (simp add: u_def pow2_pos)
  from assms upos have "a / u \<le> b / u" by (simp add: divide_right_mono)
  then have "rhe (a / u) \<le> rhe (b / u)" by (rule rhe_mono)
  then have "(of_int (rhe (a / u)) :: rat) \<le> of_int (rhe (b / u))" by (rule of_int_le_iff [THEN iffD2])
  then have "of_int (rhe (a / u)) * u \<le> of_int (rhe (b / u)) * u" using upos by simp
  then show ?thesis by (simp add: rnd_mag_def True u_def)
next
  case False
  with expo_mono [OF assms] have lt: "expo a + 1 \<le> expo b" by simp
  with expo_ge [of a] have "- 126 < expo b" by simp
  then have "pow2 (expo b) \<le> rnd_mag b" by (rule rnd_mag_lower)
  moreover have "pow2 (expo a + 1) \<le> pow2 (expo b)" using lt by (rule pow2_mono)
  ultimately show ?thesis using rnd_mag_upper [of a] by simp
qed

lemma rnd_mag_expo:
  "expo a = e \<Longrightarrow> rnd_mag a = of_int (rhe (a / pow2 (e - 23))) * pow2 (e - 23)"
  by (simp add: rnd_mag_def)

lemma rnd_mag_int:
  assumes "0 \<le> k" and "k \<le> 2 ^ 24"
  shows "rnd_mag (of_int k) = of_int k"
proof (cases "k = 2 ^ 24")
  case True
  have e: "expo (2 ^ 24) = 24" by (rule expo_unique) (simp_all add: pow2_def)
  have "(2 ^ 24 / pow2 (24 - 23) :: rat) = of_int (2 ^ 23)" by (simp add: pow2_def)
  then have "rnd_mag (2 ^ 24) = of_int (2 ^ 23) * pow2 (24 - 23)"
    using rnd_mag_expo [OF e] by (simp only: rhe_of_int)
  also have "\<dots> = 2 ^ 24" by (simp add: pow2_def)
  finally show ?thesis by (simp add: True)
next
  case False
  define e where "e = expo (of_int k)"
  have "e \<le> 23"
  proof (rule ccontr)
    assume "\<not> e \<le> 23"
    then have "24 \<le> e" by simp
    then have "pow2 24 \<le> pow2 e" by (rule pow2_mono)
    moreover have "pow2 e \<le> of_int k" unfolding e_def using \<open>24 \<le> e\<close>
      by (intro expo_lower) (simp add: e_def)
    ultimately have "(2 ^ 24 :: rat) \<le> of_int k" by (simp add: pow2_def)
    then have "(of_int (2 ^ 24) :: rat) \<le> of_int k" by simp
    then have "2 ^ 24 \<le> k" by (simp only: of_int_le_iff)
    with assms False show False by simp
  qed
  then have u: "pow2 (e - 23) = 1 / 2 ^ nat (23 - e)"
    by (cases "e = 23") (simp_all add: pow2_def)
  define j where "j = k * 2 ^ nat (23 - e)"
  have q: "(of_int k / pow2 (e - 23) :: rat) = of_int j"
    by (simp add: u j_def)
  have "rnd_mag (of_int k) = of_int (rhe (of_int k / pow2 (e - 23))) * pow2 (e - 23)"
    by (rule rnd_mag_expo) (simp add: e_def)
  also have "\<dots> = of_int j * pow2 (e - 23)"
    by (simp only: q rhe_of_int)
  also have "\<dots> = (of_int k :: rat)"
    by (simp add: u j_def)
  finally show ?thesis .
qed



lemma rnd_mag_dyadic:
  assumes "0 \<le> m" and "m < 2 ^ 24" and "n \<le> 149"
  shows "rnd_mag (of_int m / 2 ^ n) = of_int m / 2 ^ n"
proof -
  define a :: rat where "a = of_int m / 2 ^ n"
  define e where "e = expo a"
  have le: "e \<le> 23 - int n"
  proof (rule ccontr)
    assume "\<not> e \<le> 23 - int n"
    then have ge: "24 - int n \<le> e" by simp
    with assms(3) have "- 126 < expo a" by (simp add: e_def)
    then have "pow2 (expo a) \<le> a" by (rule expo_lower)
    moreover have "pow2 (24 - int n) \<le> pow2 (expo a)" using ge unfolding e_def by (rule pow2_mono)
    moreover have "pow2 (24 - int n) = 2 ^ 24 / 2 ^ n"
      using pow2_add [of 24 "- int n"] by (simp add: pow2_def)
    ultimately have "(2 ^ 24 / 2 ^ n :: rat) \<le> of_int m / 2 ^ n" by (simp add: a_def)
    then have "(of_int (2 ^ 24) :: rat) \<le> of_int m" by (simp add: divide_le_cancel)
    then have "2 ^ 24 \<le> m" by (simp only: of_int_le_iff)
    with assms(2) show False by simp
  qed
  define d where "d = nat (23 - e) - n"
  from le have dn: "nat (23 - e) = d + n" by (simp add: d_def)
  from le have u: "pow2 (e - 23) = 1 / 2 ^ nat (23 - e)"
    by (cases "e = 23") (simp_all add: pow2_def)
  define j where "j = m * 2 ^ d"
  have q: "a / pow2 (e - 23) = of_int j"
    by (simp add: u j_def a_def dn power_add)
  have "rnd_mag a = of_int (rhe (a / pow2 (e - 23))) * pow2 (e - 23)"
    by (rule rnd_mag_expo) (simp add: e_def)
  also have "\<dots> = of_int j * pow2 (e - 23)"
    by (simp only: q rhe_of_int)
  also have "\<dots> = a"
    by (simp add: u j_def a_def dn power_add)
  finally show ?thesis by (simp add: a_def)
qed

lemma div_pow2_le: "0 \<le> (x::rat) \<Longrightarrow> x / 2 ^ n \<le> x"
proof -
  assume x: "0 \<le> x"
  have "(1::rat) \<le> 2 ^ n" by (rule one_le_power) simp
  then have "x / 2 ^ n \<le> x / 1" using x by (intro divide_left_mono) simp_all
  then show ?thesis by simp
qed

lemma rnd32_of_int:
  assumes "\<bar>k\<bar> \<le> 2 ^ 24"
  shows "rnd32 (of_int k) = Fin (of_int k)"
proof (cases "0 \<le> k")
  case True
  with assms have "rnd_mag (of_int k) = of_int k" by (intro rnd_mag_int) simp_all
  moreover have "(of_int k :: rat) < 2 ^ 128"
  proof -
    have "k < 2 ^ 128" using assms by simp
    then have "(of_int k :: rat) < of_int (2 ^ 128)" by (simp only: of_int_less_iff)
    then show ?thesis by simp
  qed
  ultimately show ?thesis using True by (simp add: rnd32_def)
next
  case False
  with assms have "rnd_mag (of_int (- k)) = of_int (- k)" by (intro rnd_mag_int) simp_all
  then have r: "rnd_mag (- of_int k) = - of_int k" by simp
  have "(- of_int k :: rat) < 2 ^ 128"
  proof -
    have "- k < 2 ^ 128" using assms by simp
    then have "(of_int (- k) :: rat) < of_int (2 ^ 128)" by (simp only: of_int_less_iff)
    then show ?thesis by simp
  qed
  with False r show ?thesis by (simp add: rnd32_def)
qed

lemma rnd32_dyadic:
  assumes "\<bar>m\<bar> < 2 ^ 24" and "n \<le> 149"
  shows "rnd32 (of_int m / 2 ^ n) = Fin (of_int m / 2 ^ n)"
proof (cases "0 \<le> m")
  case True
  with assms have r: "rnd_mag (of_int m / 2 ^ n) = of_int m / 2 ^ n"
    by (intro rnd_mag_dyadic) simp_all
  have "(of_int m :: rat) < of_int (2 ^ 128)" using assms by (simp only: of_int_less_iff) simp
  moreover have "(of_int m / 2 ^ n :: rat) \<le> of_int m" using True
    by (intro div_pow2_le) simp
  ultimately have "(of_int m / 2 ^ n :: rat) < 2 ^ 128" by simp
  with True r show ?thesis by (simp add: rnd32_def)
next
  case False
  with assms have "rnd_mag (of_int (- m) / 2 ^ n) = of_int (- m) / 2 ^ n"
    by (intro rnd_mag_dyadic) simp_all
  then have r: "rnd_mag (- (of_int m / 2 ^ n)) = - (of_int m / 2 ^ n)" by simp
  have "(of_int (- m) :: rat) < of_int (2 ^ 128)" using assms by (simp only: of_int_less_iff) simp
  moreover have "(of_int (- m) / 2 ^ n :: rat) \<le> of_int (- m)" using False
    by (intro div_pow2_le) simp
  ultimately have "(- (of_int m / 2 ^ n) :: rat) < 2 ^ 128" by simp
  moreover from False have "\<not> 0 \<le> (of_int m / 2 ^ n :: rat)"
    by (simp add: not_le divide_less_0_iff)
  ultimately show ?thesis using r by (simp add: rnd32_def)
qed

lemma rnd32_mono:
  assumes "0 \<le> a" and "a \<le> b"
  shows "fle (rnd32 a) (rnd32 b)"
  using rnd_mag_mono [OF assms(2)] assms by (auto simp: rnd32_def)

lemma rnd32_0: "rnd32 0 = Fin 0"
  using rnd32_of_int [of 0] by simp

lemma rnd32_1: "rnd32 1 = Fin 1"
  using rnd32_of_int [of 1] by simp

lemma rnd32_numeral: "numeral k \<le> (16777216::int) \<Longrightarrow> rnd32 (numeral k) = Fin (numeral k)"
  using rnd32_of_int [of "numeral k"] by simp

lemmas rnd32_small = rnd32_0 rnd32_1 rnd32_numeral

lemma f32_of_int_small: "\<bar>k\<bar> \<le> 16777216 \<Longrightarrow> f32_of_int k = Fin (of_int k)"
  using rnd32_of_int [of k] by (simp add: f32_of_int_def)

section \<open>AverageLoss\<close>

lemma loss_example_eq:
  "loss_example = Some ((AverageLoss_init 3)\<lparr>loss_local := [Fin 1, Fin 2, Fin 3]\<rparr>)"
  by (simp add: loss_example_def AverageLoss_local_reduce_def AverageLoss_init_def wr_def
      numeral_3_eq_3)

text \<open>
  C9: in a single process, with the device losses 1, 2 and 3 and three replicas, one reduce
  followed by finalize returns 2, and a second finalize without a reduce in between returns 0.
  Finalize resets the running total, the device slots and the batch counter of every state,
  so a finalize that follows a finalize returns 0.
\<close>

theorem average_loss_example:
  "(\<exists>s. loss_example = Some s
      \<and> loss_local s = [Fin 1, Fin 2, Fin 3]
      \<and> fst (AverageLoss_finalize_metric (AverageLoss_global_reduce s 3)) = Fin 2
      \<and> fst (AverageLoss_finalize_metric
            (snd (AverageLoss_finalize_metric (AverageLoss_global_reduce s 3)))) = Fin 0)
   \<and> loss_global (snd (AverageLoss_finalize_metric t)) = Fin 0
   \<and> loss_local (snd (AverageLoss_finalize_metric t)) = replicate (length (loss_local t)) (Fin 0)
   \<and> loss_n_batches (snd (AverageLoss_finalize_metric t)) = 0
   \<and> fst (AverageLoss_finalize_metric (snd (AverageLoss_finalize_metric t))) = Fin 0"
  by (simp add: loss_example_eq AverageLoss_finalize_metric_def AverageLoss_global_reduce_def
      AverageLoss_init_def f32_of_int_small rnd32_small Let_def map_replicate_const)

section \<open>Ingestion of the AUC engine\<close>

lemma copy_pred_write_range:
  assumes "0 \<le> off" and "0 \<le> k" and "off + k \<le> int (length y)" and "k \<le> int (length x)"
  shows "copy_pred y off x k = Some (write_range y off x k)"
  using assms by (simp add: copy_pred_def write_range_def)

text \<open>
  What \<^verbatim>\<open>local_reduce\<close> and \<^verbatim>\<open>global_reduce\<close> do, in terms of the device id that the resource
  manager gives for the index \<open>local_gpu_id\<close>: with \<open>active\<close> the quotient and \<open>r\<close> the
  remainder of the size of the current batch by \<^verbatim>\<open>batch_size_per_gpu_ * num_procs_\<close>, a
  device with an id below \<open>active\<close> writes \<^verbatim>\<open>batch_size_per_gpu_\<close> samples at
  \<^verbatim>\<open>offset_ + batch_size_per_gpu_ * device_id\<close>, the device with the id \<open>active\<close> writes \<open>r\<close>
  samples when \<open>r\<close> is positive, a device with an id above \<open>active\<close> writes nothing, and the
  reduce advances the offset by \<^verbatim>\<open>batch_size_per_gpu_ * active + r\<close>. The writes are required
  to lie inside the buffers and the tensors.
\<close>

lemma local_reduce_by_device_id:
  assumes dev: "rd (resource_manager s) local_gpu_id = Some device_id"
    and nz: "batch_size_per_gpu s * num_procs s \<noteq> 0"
    and act: "active = current_batch_size s sdiv (batch_size_per_gpu s * num_procs s)"
    and rem: "r = current_batch_size s smod (batch_size_per_gpu s * num_procs s)"
    and off: "off = offset s + batch_size_per_gpu s * device_id"
    and bounds: "0 \<le> off" "0 \<le> batch_size_per_gpu s"
      "off + max (batch_size_per_gpu s) r \<le> int (length (d_pred s))"
      "off + max (batch_size_per_gpu s) r \<le> int (length (d_label s))"
      "max (batch_size_per_gpu s) r \<le> int (length pred_tensor)"
      "max (batch_size_per_gpu s) r \<le> int (length label_tensor)"
  shows "(device_id < active \<longrightarrow>
            AUC_local_reduce s local_gpu_id pred_tensor label_tensor =
              Some (s\<lparr>d_pred := write_range (d_pred s) off pred_tensor (batch_size_per_gpu s),
                      d_label := write_range (d_label s) off label_tensor (batch_size_per_gpu s)\<rparr>))
       \<and> (device_id = active \<and> 0 < r \<longrightarrow>
            AUC_local_reduce s local_gpu_id pred_tensor label_tensor =
              Some (s\<lparr>d_pred := write_range (d_pred s) off pred_tensor r,
                      d_label := write_range (d_label s) off label_tensor r\<rparr>))
       \<and> (active < device_id \<longrightarrow>
            AUC_local_reduce s local_gpu_id pred_tensor label_tensor = Some s)
       \<and> AUC_global_reduce s n_nets =
            Some (s\<lparr>offset := offset s + (batch_size_per_gpu s * active + r)\<rparr>)"
proof -
  have ar: "num_active_gpu_and_r s = Some (active, r)"
    using nz by (simp add: num_active_gpu_and_r_def act rem)
  have full: "copy_all (d_pred s) (d_label s) off pred_tensor label_tensor (batch_size_per_gpu s)
      = Some (write_range (d_pred s) off pred_tensor (batch_size_per_gpu s),
              write_range (d_label s) off label_tensor (batch_size_per_gpu s))"
    using bounds by (simp add: copy_all_def copy_pred_write_range)
  have part: "copy_all (d_pred s) (d_label s) off pred_tensor label_tensor r
      = Some (write_range (d_pred s) off pred_tensor r, write_range (d_label s) off label_tensor r)"
    if "0 < r"
    using bounds that by (simp add: copy_all_def copy_pred_write_range)
  have c1: "AUC_local_reduce s local_gpu_id pred_tensor label_tensor =
              Some (s\<lparr>d_pred := write_range (d_pred s) off pred_tensor (batch_size_per_gpu s),
                      d_label := write_range (d_label s) off label_tensor (batch_size_per_gpu s)\<rparr>)"
    if "device_id < active"
    using that full by (simp add: AUC_local_reduce_def dev ar off)
  have c2: "AUC_local_reduce s local_gpu_id pred_tensor label_tensor =
              Some (s\<lparr>d_pred := write_range (d_pred s) off pred_tensor r,
                      d_label := write_range (d_label s) off label_tensor r\<rparr>)"
    if "device_id = active" and "0 < r"
    using that part by (simp add: AUC_local_reduce_def dev ar off)
  have c3: "AUC_local_reduce s local_gpu_id pred_tensor label_tensor = Some s"
    if "active < device_id"
    using that by (simp add: AUC_local_reduce_def dev ar)
  have c4: "AUC_global_reduce s n_nets =
            Some (s\<lparr>offset := offset s + (batch_size_per_gpu s * active + r)\<rparr>)"
    by (simp add: AUC_global_reduce_def ar)
  from c1 c2 c3 c4 show ?thesis by blast
qed

lemma sdiv_example: "(6::int) sdiv 4 = 1" "(6::int) smod 4 = 2"
  by (simp_all add: signed_divide_int_def signed_modulo_int_def)

lemma device_state_fields:
  "resource_manager device_state = [2, 0, 1]"
  "batch_size_per_gpu device_state = 4" "num_procs device_state = 1"
  "current_batch_size device_state = 6" "offset device_state = 0"
  "length (d_pred device_state) = 12" "length (d_label device_state) = 12"
  by (simp_all add: device_state_def AUC_init_def)

text \<open>
  C5 fails on the code when the device ids of the local devices are not their indices.
  \<^verbatim>\<open>AUC::local_reduce\<close> looks up the device id of the index it is given and then compares
  the device id with the number of the active devices and places the samples by the device
  id, where \<^verbatim>\<open>AverageLoss::local_reduce\<close> uses the index for the slot of the device. With the
  local devices 2, 0 and 1, four samples per device and a batch of six samples, \<open>active\<close> is 1
  and \<open>r\<close> is 2: by C5 the index 0 writes four samples at the offset, the index 1 writes two
  samples and the index 2 writes nothing. In the code the index 0 writes nothing, the index
  1 writes four samples at the offset, and the index 2 writes two samples four places
  further.
\<close>

theorem accumulate_by_device_id:
  "resource_manager device_state = [2, 0, 1]
   \<and> batch_size_per_gpu device_state = 4 \<and> offset device_state = 0
   \<and> num_active_gpu_and_r device_state = Some (1, 2)
   \<and> AUC_local_reduce device_state 0 device_pred device_label = Some device_state
   \<and> AUC_local_reduce device_state 1 device_pred device_label =
       Some (device_state
         \<lparr>d_pred := write_range (d_pred device_state) 0 device_pred 4,
          d_label := write_range (d_label device_state) 0 device_label 4\<rparr>)
   \<and> AUC_local_reduce device_state 2 device_pred device_label =
       Some (device_state
         \<lparr>d_pred := write_range (d_pred device_state) 4 device_pred 2,
          d_label := write_range (d_label device_state) 4 device_label 2\<rparr>)
   \<and> AUC_global_reduce device_state 1 = Some (device_state\<lparr>offset := 6\<rparr>)"
proof -
  note f = device_state_fields
  have ar: "num_active_gpu_and_r device_state = Some (1, 2)"
    by (simp add: num_active_gpu_and_r_def f sdiv_example)
  have d: "rd (resource_manager device_state) 0 = Some 2"
    "rd (resource_manager device_state) 1 = Some 0"
    "rd (resource_manager device_state) 2 = Some 1"
    by (simp_all add: f rd_def)
  have l: "length device_pred = 4" "length device_label = 4"
    by (simp_all add: device_pred_def device_label_def)
  have c0: "AUC_local_reduce device_state 0 device_pred device_label = Some device_state"
    by (simp add: AUC_local_reduce_def d ar)
  have c1: "AUC_local_reduce device_state 1 device_pred device_label =
       Some (device_state
         \<lparr>d_pred := write_range (d_pred device_state) 0 device_pred 4,
          d_label := write_range (d_label device_state) 0 device_label 4\<rparr>)"
    by (simp add: AUC_local_reduce_def d ar f(2-) copy_all_def copy_pred_write_range l)
  have c2: "AUC_local_reduce device_state 2 device_pred device_label =
       Some (device_state
         \<lparr>d_pred := write_range (d_pred device_state) 4 device_pred 2,
          d_label := write_range (d_label device_state) 4 device_label 2\<rparr>)"
    by (simp add: AUC_local_reduce_def d ar f(2-) copy_all_def copy_pred_write_range l)
  have c3: "AUC_global_reduce device_state 1 = Some (device_state\<lparr>offset := 6\<rparr>)"
    by (simp add: AUC_global_reduce_def ar f)
  from f(1,2,5) ar c0 c1 c2 c3 show ?thesis by simp
qed

lemma rhe_near:
  assumes "\<bar>x - of_int m\<bar> < 1 / 2"
  shows "rhe x = m"
proof -
  from assms have lo: "of_int m - 1 / 2 < x" and hi: "x < of_int m + 1 / 2" by linarith+
  show ?thesis
  proof (cases "of_int m \<le> x")
    case True
    with hi have f: "\<lfloor>x\<rfloor> = m" by (intro floor_unique) linarith+
    with hi show ?thesis by (simp add: rhe_def Let_def)
  next
    case False
    with lo have f: "\<lfloor>x\<rfloor> = m - 1" by (intro floor_unique) (simp, linarith)+
    with lo show ?thesis by (simp add: rhe_def Let_def)
  qed
qed

lemma rnd32_eval:
  assumes "0 \<le> q" and "- 126 \<le> e" and "q < pow2 (e + 1)" and "e = - 126 \<or> pow2 e \<le> q"
    and "\<bar>q / pow2 (e - 23) - of_int m\<bar> < 1 / 2"
    and "of_int m * pow2 (e - 23) < 2 ^ 128"
  shows "rnd32 q = Fin (of_int m * pow2 (e - 23))"
proof -
  have "expo q = e" using assms(2,3,4) by (rule expo_unique)
  then have "rnd_mag q = of_int (rhe (q / pow2 (e - 23))) * pow2 (e - 23)"
    by (rule rnd_mag_expo)
  also have "rhe (q / pow2 (e - 23)) = m" using assms(5) by (rule rhe_near)
  finally show ?thesis using assms(1,6) by (simp add: rnd32_def)
qed

lemma rnd32_9_10: "rnd32 (9 / 10) = Fin (7549747 / 8388608)"
  using rnd32_eval [of "9 / 10" "- 1" 15099494] by (simp add: pow2_def)

lemma rnd32_8_10: "rnd32 (4 / 5) = Fin (13421773 / 16777216)"
  using rnd32_eval [of "4 / 5" "- 1" 13421773] by (simp add: pow2_def)

lemma rnd32_7_10: "rnd32 (7 / 10) = Fin (11744051 / 16777216)"
  using rnd32_eval [of "7 / 10" "- 1" 11744051] by (simp add: pow2_def)

lemma rnd32_6_10: "rnd32 (3 / 5) = Fin (5033165 / 8388608)"
  using rnd32_eval [of "3 / 5" "- 1" 10066330] by (simp add: pow2_def)

lemma eps_value: "eps = Fin (13611295 / 2 ^ 130)"
  unfolding eps_def using rnd32_eval [of "1 / 10 ^ 32" "- 107" 13611295] by (simp add: pow2_def)

lemma rnd32_pow2_100: "rnd32 (1 / 2 ^ 100) = Fin (1 / 2 ^ 100)"
  using rnd32_dyadic [of 1 100] by simp

lemma fgt_rnd32_eps:
  assumes "1 / 2 ^ 100 \<le> d"
  shows "fgt (rnd32 d) eps"
proof -
  have "(0::rat) \<le> 1 / 2 ^ 100" by simp
  from rnd32_mono [OF this assms] have "fle (Fin (1 / 2 ^ 100)) (rnd32 d)"
    by (simp only: rnd32_pow2_100)
  moreover have "(13611295 / 2 ^ 130 :: rat) < 1 / 2 ^ 100" by simp
  ultimately show ?thesis by (cases "rnd32 d") (simp_all add: eps_value)
qed

lemma not_fgt_zero_eps: "\<not> fgt (Fin 0) eps"
  by (simp add: eps_value)

lemma fsub_Fin: "fsub (Fin a) (Fin b) = rnd32 (a - b)"
  by (simp add: fsub_def fneg_def)

section \<open>The kernels\<close>

declare unique_flag_loop.simps [simp del]

lemma rd_Some: "0 \<le> i \<Longrightarrow> i < int (length xs) \<Longrightarrow> rd xs i = Some (xs ! nat i)"
  by (simp add: rd_def)

lemma wr_Some: "0 \<le> i \<Longrightarrow> i < int (length xs) \<Longrightarrow> wr xs i v = Some (xs[nat i := v])"
  by (simp add: wr_def)

lemma unique_flag_loop_result:
  assumes "0 \<le> gid" and "num_elems \<le> int (length data)" and "num_elems \<le> int (length flag)"
  shows "\<exists>flag'. unique_flag_loop data flag num_elems gid = Some flag'
           \<and> length flag' = length flag
           \<and> (\<forall>i < length flag. flag' ! i =
                 (if gid \<le> int i \<and> int i < num_elems - 1 then flag_at data i else flag ! i))"
  using assms
proof (induction data flag num_elems gid rule: unique_flag_loop.induct)
  case (1 data flag num_elems gid)
  show ?case
  proof (cases "gid < num_elems - 1")
    case False
    then show ?thesis by (subst unique_flag_loop.simps) simp
  next
    case True
    define flag1 where "flag1 = flag[nat gid := flag_at data (nat gid)]"
    have r1: "rd data gid = Some (data ! nat gid)"
      using True "1.prems" by (intro rd_Some) simp_all
    have r2: "rd data (gid + 1) = Some (data ! (nat gid + 1))"
      using True "1.prems" by (simp add: rd_def nat_add_distrib)
    have w: "wr flag gid c = Some (flag[nat gid := c])" for c
      using True "1.prems" by (intro wr_Some) simp_all
    have step: "unique_flag_loop data flag num_elems gid =
        unique_flag_loop data flag1 num_elems (gid + 1)"
      using True by (subst unique_flag_loop.simps) (simp add: r1 r2 w flag1_def flag_at_def)
    have "\<exists>flag'. unique_flag_loop data flag1 num_elems (gid + 1) = Some flag'
           \<and> length flag' = length flag1
           \<and> (\<forall>i < length flag1. flag' ! i =
                 (if gid + 1 \<le> int i \<and> int i < num_elems - 1 then flag_at data i else flag1 ! i))"
      using True "1.prems" r1 r2 w by (intro "1.IH") (simp_all add: flag1_def flag_at_def)
    then obtain flag' where f: "unique_flag_loop data flag1 num_elems (gid + 1) = Some flag'"
      "length flag' = length flag1"
      "\<forall>i < length flag1. flag' ! i =
          (if gid + 1 \<le> int i \<and> int i < num_elems - 1 then flag_at data i else flag1 ! i)"
      by blast
    have "flag' ! i = (if gid \<le> int i \<and> int i < num_elems - 1 then flag_at data i else flag ! i)"
      if "i < length flag" for i
    proof (cases "int i = gid")
      case True
      then have "i = nat gid" by simp
      with f(3) that \<open>gid < num_elems - 1\<close> "1.prems" show ?thesis
        by (simp add: flag1_def)
    next
      case False
      then have "i \<noteq> nat gid" using "1.prems" by auto
      with f(3) that False show ?thesis by (auto simp: flag1_def)
    qed
    with f(1,2) step show ?thesis by (simp add: flag1_def)
  qed
qed

text \<open>
  C3: for an array of \<open>num_elems \<ge> 1\<close> predictions, \<^verbatim>\<open>unique_flag_kernel\<close> sets the flag of a
  position \<open>i < num_elems - 1\<close> to 1 exactly when \<open>data[i] - data[i + 1] > eps\<close>, in
  single-precision arithmetic with \<open>eps\<close> the \<^verbatim>\<open>float\<close> nearest to \<open>10\<^sup>-\<^sup>3\<^sup>2\<close>, and to 0 otherwise,
  and sets the flag of the position \<open>num_elems - 1\<close> to 1 whatever its predecessor is. The
  flags behind \<open>num_elems\<close> are left as they were. The statement holds for every array, sorted
  or not.
\<close>

theorem unique_flag_kernel_flags:
  assumes "1 \<le> num_elems" and "num_elems \<le> int (length data)"
    and "num_elems \<le> int (length flag)"
  shows "\<exists>flag'. unique_flag_kernel data flag num_elems = Some flag'
           \<and> length flag' = length flag
           \<and> (\<forall>i. int i < num_elems - 1 \<longrightarrow>
                 (flag' ! i = 1 \<longleftrightarrow> fgt (fsub (data ! i) (data ! (i + 1))) eps)
                 \<and> (flag' ! i = 0 \<longleftrightarrow> \<not> fgt (fsub (data ! i) (data ! (i + 1))) eps))
           \<and> flag' ! nat (num_elems - 1) = 1
           \<and> drop (nat num_elems) flag' = drop (nat num_elems) flag"
proof -
  from unique_flag_loop_result [of 0 num_elems data flag] assms
  obtain flag1 where f: "unique_flag_loop data flag num_elems 0 = Some flag1"
    "length flag1 = length flag"
    "\<forall>i < length flag. flag1 ! i = (if int i < num_elems - 1 then flag_at data i else flag ! i)"
    by auto
  define flag' where "flag' = flag1[nat (num_elems - 1) := 1]"
  have k: "unique_flag_kernel data flag num_elems = Some flag'"
    using assms f(1,2) by (simp add: unique_flag_kernel_def wr_def flag'_def)
  have len: "length flag' = length flag" by (simp add: flag'_def f(2))
  have a: "flag' ! i = flag_at data i" if "int i < num_elems - 1" for i
    using that assms f(2,3) by (simp add: flag'_def)
  have b: "flag' ! nat (num_elems - 1) = 1"
    using assms f(2) by (simp add: flag'_def)
  have c: "drop (nat num_elems) flag' = drop (nat num_elems) flag"
  proof (rule nth_equalityI)
    show "length (drop (nat num_elems) flag') = length (drop (nat num_elems) flag)"
      by (simp add: len)
    fix i assume "i < length (drop (nat num_elems) flag')"
    then have i: "nat num_elems + i < length flag" by (simp add: len)
    from assms have "nat num_elems + i \<noteq> nat (num_elems - 1)" by linarith
    with i f(3) assms show "drop (nat num_elems) flag' ! i = drop (nat num_elems) flag ! i"
      by (simp add: flag'_def f(2) len)
  qed
  from k len a b c show ?thesis by (auto simp: flag_at_def)
qed

lemma tie_pred_flags:
  "fgt (fsub (tie_pred ! 0) (tie_pred ! (0 + 1))) eps"
  "\<not> fgt (fsub (tie_pred ! 1) (tie_pred ! (1 + 1))) eps"
  by (simp_all add: tie_pred_def rnd32_9_10 rnd32_8_10 fsub_Fin fgt_rnd32_eps
      rnd32_0 not_fgt_zero_eps)

theorem unique_flag_kernel_flags_witness:
  "(1::int) \<le> 3 \<and> 3 \<le> int (length tie_pred) \<and> 3 \<le> int (length [7, 7, 7 :: int])
   \<and> unique_flag_kernel tie_pred [7, 7, 7] 3 = Some [1, 0, 1]"
proof -
  have h: "(1::int) \<le> 3" "3 \<le> int (length tie_pred)" "3 \<le> int (length [7, 7, 7 :: int])"
    by (simp_all add: tie_pred_def)
  from unique_flag_kernel_flags [OF h]
  obtain flag' where f: "unique_flag_kernel tie_pred [7, 7, 7] 3 = Some flag'"
    "length flag' = length [7, 7, 7 :: int]"
    "\<forall>i. int i < 3 - 1 \<longrightarrow>
       (flag' ! i = 1 \<longleftrightarrow> fgt (fsub (tie_pred ! i) (tie_pred ! (i + 1))) eps)
       \<and> (flag' ! i = 0 \<longleftrightarrow> \<not> fgt (fsub (tie_pred ! i) (tie_pred ! (i + 1))) eps)"
    "flag' ! nat (3 - 1) = 1"
    by blast
  from f(3) [rule_format, of 0] tie_pred_flags(1) have a: "flag' ! 0 = 1" by simp
  from f(3) [rule_format, of 1] tie_pred_flags(2) have b: "flag' ! 1 = 0" by simp
  from f(4) have c: "flag' ! 2 = 1" by simp
  from f(2) have "flag' = [flag' ! 0, flag' ! 1, flag' ! 2]"
    by (intro nth_equalityI) (auto simp: less_Suc_eq numeral_3_eq_3 numeral_2_eq_2)
  with a b c have "flag' = [1, 0, 1]" by simp
  with f(1) h show ?thesis by simp
qed

lemma length_flags_of: "0 < n \<Longrightarrow> length (flags_of data n) = n"
  by (simp add: flags_of_def)

lemma flags_of_nth:
  "i < n \<Longrightarrow> flags_of data n ! i = (if i < n - 1 then flag_at data i else 1)"
  by (auto simp: flags_of_def nth_append)

lemma flags_of_01: "x \<in> set (flags_of data n) \<Longrightarrow> x = 0 \<or> x = 1"
  by (auto simp: flags_of_def flag_at_def)

lemma unique_flag_kernel_eq:
  assumes "1 \<le> num_elems" and "num_elems \<le> int (length data)"
    and "num_elems \<le> int (length flag)"
  shows "unique_flag_kernel data flag num_elems =
           Some (flags_of data (nat num_elems) @ drop (nat num_elems) flag)"
proof -
  from unique_flag_loop_result [of 0 num_elems data flag] assms
  obtain flag1 where f: "unique_flag_loop data flag num_elems 0 = Some flag1"
    "length flag1 = length flag"
    "\<forall>i < length flag. flag1 ! i = (if int i < num_elems - 1 then flag_at data i else flag ! i)"
    by auto
  define n where "n = nat num_elems"
  have n: "num_elems = int n" "0 < n" "n \<le> length flag" using assms by (simp_all add: n_def)
  have k: "unique_flag_kernel data flag num_elems = Some (flag1[n - 1 := 1])"
    using assms f(1,2) n by (simp add: unique_flag_kernel_def wr_def nat_diff_distrib)
  have "flag1[n - 1 := 1] = flags_of data n @ drop n flag"
  proof (rule nth_equalityI)
    show "length (flag1[n - 1 := 1]) = length (flags_of data n @ drop n flag)"
      using n by (simp add: f(2) length_flags_of)
    fix i assume "i < length (flag1[n - 1 := 1])"
    then have i: "i < length flag" by (simp add: f(2))
    consider "i < n - 1" | "i = n - 1" | "n \<le> i" by linarith
    then show "flag1[n - 1 := 1] ! i = (flags_of data n @ drop n flag) ! i"
    proof cases
      case 1
      then have "int i < num_elems - 1" using n by linarith
      with 1 i f(3) have "flag1 ! i = flag_at data i" by simp
      moreover from 1 have "i < n" by simp
      ultimately show ?thesis using 1 i n
        by (simp add: nth_append length_flags_of flags_of_nth f(2))
    next
      case 2
      with i n f(2) show ?thesis
        by (simp add: nth_append length_flags_of flags_of_nth)
    next
      case 3
      then have "\<not> int i < num_elems - 1" using n by linarith
      with i f(3) have "flag1 ! i = flag ! i" by simp
      with 3 i n show ?thesis
        by (simp add: nth_append length_flags_of f(2))
    qed
  qed
  with k show ?thesis by (simp add: n_def)
qed

lemma zip_as_map:
  "length xs = length ys \<Longrightarrow> zip xs ys = map (\<lambda>i. (xs ! i, ys ! i)) [0..<length ys]"
  by (rule nth_equalityI) simp_all

lemma select_flagged_idx:
  assumes "length xs = length flags"
  shows "select_flagged xs flags = map (\<lambda>i. xs ! i) (flagged_idx flags)"
  by (simp add: select_flagged_def flagged_idx_def zip_as_map [OF assms] filter_map comp_def)

lemma length_scan_from: "length (scan_from f acc xs) = length xs"
  by (induction xs arbitrary: acc) simp_all

lemma length_inclusive_scan: "length (inclusive_scan f xs) = length xs"
  by (cases xs) (simp_all add: length_scan_from)

lemma scan_from_nth:
  "i < length xs \<Longrightarrow> scan_from f acc xs ! i = foldl f acc (take (Suc i) xs)"
proof (induction xs arbitrary: acc i)
  case Nil
  then show ?case by simp
next
  case (Cons x xs)
  then show ?case by (cases i) simp_all
qed

lemma sorted_flagged_idx: "sorted (flagged_idx flags)" "distinct (flagged_idx flags)"
  unfolding flagged_idx_def by (intro sorted_wrt_filter sorted_upt) simp

lemma flagged_idx_bound: "i \<in> set (flagged_idx flags) \<Longrightarrow> i < length flags"
  by (simp add: flagged_idx_def)

lemma flagged_idx_last:
  assumes "0 < n"
  shows "flagged_idx (flags_of data n) \<noteq> []" "last (flagged_idx (flags_of data n)) = n - 1"
proof -
  have u: "[0..<n] = [0..<n - 1] @ [n - 1]" using assms
    by (metis Suc_diff_1 upt_Suc_append zero_le)
  have l: "flags_of data n ! (n - 1) \<noteq> 0" using assms by (simp add: flags_of_nth)
  have "flagged_idx (flags_of data n) =
      filter (\<lambda>i. flags_of data n ! i \<noteq> 0) [0..<n - 1] @ [n - 1]"
    using l assms by (simp add: flagged_idx_def length_flags_of) (subst u, simp)
  then show "flagged_idx (flags_of data n) \<noteq> []" "last (flagged_idx (flags_of data n)) = n - 1"
    by simp_all
qed

declare unique_index_loop.simps [simp del] create_fpr_loop.simps [simp del]

lemma flag_count_Suc:
  "flag_count flags (Suc k) = flag_count flags k + (if flags ! k \<noteq> 0 then 1 else 0)"
  by (simp add: flag_count_def)

lemma flag_count_le: "flag_count flags k \<le> k"
  unfolding flag_count_def using length_filter_le [of _ "[0..<k]"] by simp

lemma flag_count_mono: "a \<le> b \<Longrightarrow> flag_count flags a \<le> flag_count flags b"
proof (induction b)
  case 0
  then show ?case by simp
next
  case (Suc b)
  then show ?case by (cases "a = Suc b") (simp_all add: flag_count_Suc)
qed

lemma inclusive_scan_plus_nth:
  fixes xs :: "int list"
  assumes "i < length xs"
  shows "inclusive_scan (+) xs ! i = sum_list (take (Suc i) xs)"
proof (cases xs)
  case Nil
  with assms show ?thesis by simp
next
  case (Cons x ys)
  have f: "foldl (+) a zs = a + sum_list zs" for a :: int and zs
    by (induction zs arbitrary: a) simp_all
  show ?thesis
  proof (cases i)
    case 0
    with Cons show ?thesis by simp
  next
    case (Suc j)
    with Cons assms show ?thesis by (simp add: scan_from_nth f)
  qed
qed

lemma sum_take_flag_count:
  assumes "\<forall>j < length flags. flags ! j = 0 \<or> flags ! j = 1" and "k \<le> length flags"
  shows "sum_list (take k flags) = int (flag_count flags k)"
  using assms(2)
proof (induction k)
  case 0
  then show ?case by (simp add: flag_count_def)
next
  case (Suc k)
  then have "take (Suc k) flags = take k flags @ [flags ! k]"
    by (simp add: take_Suc_conv_app_nth)
  moreover from Suc assms(1) have "flags ! k = 0 \<or> flags ! k = 1" by simp
  ultimately show ?case using Suc by (auto simp: flag_count_Suc)
qed

lemma unique_index_loop_result:
  assumes "0 \<le> gid" and "gid \<le> num_elems"
    and "num_elems \<le> int (length flag)" and "num_elems \<le> int (length flag_inc_sum)"
    and "num_elems \<le> int (length unique_index)"
    and "\<forall>j < nat num_elems. flag ! j = 0 \<or> flag ! j = 1"
    and "\<forall>j < nat num_elems. flag_inc_sum ! j = int (flag_count flag (Suc j))"
  shows "unique_index_loop flag flag_inc_sum unique_index num_elems gid =
           Some (take (flag_count flag (nat gid)) unique_index
                 @ map int (filter (\<lambda>j. flag ! j \<noteq> 0) [nat gid..<nat num_elems])
                 @ drop (flag_count flag (nat num_elems)) unique_index)"
  using assms
proof (induction flag flag_inc_sum unique_index num_elems gid rule: unique_index_loop.induct)
  case (1 flag flag_inc_sum unique_index num_elems gid)
  define c where "c = flag_count flag (nat gid)"
  define K where "K = flag_count flag (nat num_elems)"
  show ?case
  proof (cases "gid < num_elems")
    case False
    with "1.prems" have "gid = num_elems" by simp
    then show ?thesis by (subst unique_index_loop.simps) simp
  next
    case True
    have g: "nat gid < nat num_elems" "nat (gid + 1) = Suc (nat gid)"
      using True "1.prems"(1) by simp_all
    have rf: "rd flag gid = Some (flag ! nat gid)"
      using True "1.prems" by (intro rd_Some) simp_all
    have l: "[nat gid..<nat num_elems] = nat gid # [nat (gid + 1)..<nat num_elems]"
      using g by (simp add: upt_conv_Cons)
    have c1: "flag_count flag (nat (gid + 1)) = c + (if flag ! nat gid \<noteq> 0 then 1 else 0)"
      by (simp add: g flag_count_Suc c_def)
    have cK: "flag_count flag (nat (gid + 1)) \<le> K"
      unfolding K_def g(2) using g(1) by (intro flag_count_mono) linarith
    have p: "0 \<le> gid + 1" "gid + 1 \<le> num_elems" using True "1.prems"(1) by simp_all
    show ?thesis
    proof (cases "flag ! nat gid = 1")
      case one: True
      have rs: "rd flag_inc_sum gid = Some (int c + 1)"
        using True "1.prems" g by (simp add: rd_def flag_count_Suc one c_def)
      have cb: "c < length unique_index"
      proof -
        have "c \<le> nat gid" unfolding c_def by (rule flag_count_le)
        with g "1.prems"(5) show ?thesis by linarith
      qed
      define ui1 where "ui1 = unique_index[c := gid]"
      have w: "wr unique_index (int c + 1 - 1) gid = Some ui1"
        using cb by (simp add: wr_def ui1_def)
      have step: "unique_index_loop flag flag_inc_sum unique_index num_elems gid =
          unique_index_loop flag flag_inc_sum ui1 num_elems (gid + 1)"
        using True one by (subst unique_index_loop.simps) (simp add: rf rs w [simplified])
      have len1: "num_elems \<le> int (length ui1)" using "1.prems"(5) by (simp add: ui1_def)
      note ih = "1.IH"(1) [OF True rf one rs w p "1.prems"(3,4) len1 "1.prems"(6,7)]
      have t: "take (Suc c) ui1 = take c unique_index @ [gid]"
        using cb by (simp add: ui1_def take_Suc_conv_app_nth)
      have d: "drop K ui1 = drop K unique_index"
        using cK c1 one by (simp add: ui1_def)
      show ?thesis
        unfolding step ih c_def [symmetric] K_def [symmetric] c1 l
        using one "1.prems"(1) by (simp add: t d)
    next
      case notone: False
      with "1.prems"(6) g have zero: "flag ! nat gid = 0" by blast
      have step: "unique_index_loop flag flag_inc_sum unique_index num_elems gid =
          unique_index_loop flag flag_inc_sum unique_index num_elems (gid + 1)"
        using True notone by (subst unique_index_loop.simps) (simp add: rf)
      note ih = "1.IH"(2) [OF True rf notone p "1.prems"(3,4,5,6,7)]
      show ?thesis
        unfolding step ih c_def [symmetric] K_def [symmetric] c1 l
        using zero "1.prems"(1) by simp
    qed
  qed
qed

lemma create_fpr_loop_result:
  assumes "0 \<le> gid" and "num_selected \<le> int (length tpr0)"
    and "num_selected \<le> int (length unique_index)" and "num_selected \<le> int (length fpr0)"
    and "rd tpr_in (num_selected - 1) = Some c"
  shows "\<exists>tpr' fpr'.
           create_fpr_loop sch tpr_in tpr0 unique_index fpr0 num_selected num_total gid
             = Some (tpr', fpr')
           \<and> length tpr' = length tpr0 \<and> length fpr' = length fpr0
           \<and> (\<forall>i < length tpr0. tpr' ! i =
                 (if gid \<le> int i \<and> int i < num_selected
                  then fdiv (tpr0 ! i)
                         (if reads_late sch num_selected (int i) then fdiv c c else c)
                  else tpr0 ! i))
           \<and> (\<forall>i < length fpr0. fpr' ! i =
                 (if gid \<le> int i \<and> int i < num_selected
                  then fdiv (fsub (fadd (Fin 1) (f32_of_int (unique_index ! i))) (tpr0 ! i))
                         (fsub (f32_of_int num_total)
                            (if reads_late sch num_selected (int i) then fdiv c c else c))
                  else fpr0 ! i))"
  using assms
proof (induction sch tpr_in tpr0 unique_index fpr0 num_selected num_total gid
    rule: create_fpr_loop.induct)
  case (1 sch tpr_in tpr0 unique_index fpr0 num_selected num_total gid)
  show ?case
  proof (cases "gid < num_selected")
    case False
    then show ?thesis by (subst create_fpr_loop.simps) auto
  next
    case True
    define g where "g = nat gid"
    define P where "P = (\<lambda>i. if reads_late sch num_selected (int i) then fdiv c c else c)"
    have g: "gid = int g" "g < length tpr0" "g < length unique_index" "g < length fpr0"
      using True "1.prems" by (simp_all add: g_def)
    define fv where "fv = fdiv (fsub (fadd (Fin 1) (f32_of_int (unique_index ! g))) (tpr0 ! g))
        (fsub (f32_of_int num_total) (P g))"
    define fpr1 where "fpr1 = fpr0[g := fv]"
    define tpr1 where "tpr1 = tpr0[g := fdiv (tpr0 ! g) (P g)]"
    have e: "entry_read sch tpr_in num_selected gid = Some (P g)"
      by (simp add: entry_read_def "1.prems"(5) P_def g(1))
    have r1: "rd tpr0 gid = Some (tpr0 ! g)" using g by (simp add: rd_def)
    have r2: "rd unique_index gid = Some (unique_index ! g)" using g by (simp add: rd_def)
    have w1: "wr fpr0 gid (fdiv (fsub (fadd (Fin 1) (f32_of_int (unique_index ! g))) (tpr0 ! g))
          (fsub (f32_of_int num_total) (P g))) = Some fpr1"
      using g by (simp add: wr_def fpr1_def fv_def)
    have w2: "wr tpr0 gid (fdiv (tpr0 ! g) (P g)) = Some tpr1"
      using g by (simp add: wr_def tpr1_def)
    have step: "create_fpr_loop sch tpr_in tpr0 unique_index fpr0 num_selected num_total gid =
        create_fpr_loop sch tpr_in tpr1 unique_index fpr1 num_selected num_total (gid + 1)"
      using True by (subst create_fpr_loop.simps) (simp add: e r1 r2 w1 w2 Let_def)
    have p: "0 \<le> gid + 1" "num_selected \<le> int (length tpr1)"
      "num_selected \<le> int (length fpr1)"
      using "1.prems" by (simp_all add: tpr1_def fpr1_def)
    from "1.IH" [OF True e refl r1 r2 w1 w2 p(1,2) "1.prems"(3) p(3) "1.prems"(5)]
    obtain tpr' fpr' where ih:
      "create_fpr_loop sch tpr_in tpr1 unique_index fpr1 num_selected num_total (gid + 1)
         = Some (tpr', fpr')"
      "length tpr' = length tpr1" "length fpr' = length fpr1"
      "\<forall>i < length tpr1. tpr' ! i =
         (if gid + 1 \<le> int i \<and> int i < num_selected then fdiv (tpr1 ! i) (P i) else tpr1 ! i)"
      "\<forall>i < length fpr1. fpr' ! i =
         (if gid + 1 \<le> int i \<and> int i < num_selected
          then fdiv (fsub (fadd (Fin 1) (f32_of_int (unique_index ! i))) (tpr1 ! i))
                 (fsub (f32_of_int num_total) (P i))
          else fpr1 ! i)"
      unfolding P_def by blast
    have a: "tpr' ! i =
        (if gid \<le> int i \<and> int i < num_selected then fdiv (tpr0 ! i) (P i) else tpr0 ! i)"
      if "i < length tpr0" for i
    proof (cases "i = g")
      case True
      with ih(4) that g \<open>gid < num_selected\<close> show ?thesis by (simp add: tpr1_def)
    next
      case False
      with ih(4) that g show ?thesis by (auto simp: tpr1_def)
    qed
    have b: "fpr' ! i =
        (if gid \<le> int i \<and> int i < num_selected
         then fdiv (fsub (fadd (Fin 1) (f32_of_int (unique_index ! i))) (tpr0 ! i))
                (fsub (f32_of_int num_total) (P i))
         else fpr0 ! i)"
      if "i < length fpr0" for i
    proof (cases "i = g")
      case True
      with ih(5) that g \<open>gid < num_selected\<close> show ?thesis by (simp add: fpr1_def fv_def)
    next
      case False
      with ih(5) that g show ?thesis by (auto simp: fpr1_def tpr1_def)
    qed
    from ih(1,2,3) a b step show ?thesis unfolding P_def by (simp add: tpr1_def fpr1_def)
  qed
qed

lemma prefix_of_Some:
  "0 \<le> n \<Longrightarrow> n \<le> int (length xs) \<Longrightarrow> prefix_of xs n = Some (take (nat n) xs)"
  by (simp add: prefix_of_def)

lemma store_prefix_Some:
  "length xs \<le> length out \<Longrightarrow> store_prefix out xs = Some (xs @ drop (length xs) out)"
  by (simp add: store_prefix_def)

lemma flag_count_flagged_idx:
  "k = length flags \<Longrightarrow> flag_count (flags @ rest) k = length (flagged_idx flags)"
proof -
  assume k: "k = length flags"
  have "filter (\<lambda>j. (flags @ rest) ! j \<noteq> 0) [0..<k] = filter (\<lambda>j. flags ! j \<noteq> 0) [0..<k]"
    by (rule filter_cong) (simp_all add: k nth_append)
  then show ?thesis by (simp add: flag_count_def flagged_idx_def k)
qed

lemma flag_count_append:
  "k \<le> length flags \<Longrightarrow> flag_count (flags @ rest) k = flag_count flags k"
proof -
  assume k: "k \<le> length flags"
  have "filter (\<lambda>j. (flags @ rest) ! j \<noteq> 0) [0..<k] = filter (\<lambda>j. flags ! j \<noteq> 0) [0..<k]"
    using k by (intro filter_cong) (simp_all add: nth_append)
  then show ?thesis by (simp add: flag_count_def)
qed

lemma unique_index_kernel_eq:
  assumes n: "0 < n" "n \<le> length unique_index" "n \<le> length fbuf"
    and F: "F = flags_of ps n"
  shows "unique_index_kernel (F @ frest) (inclusive_scan (+) F @ srest) unique_index (int n) =
           Some (map int (flagged_idx F) @ drop (length (flagged_idx F)) unique_index)"
proof -
  have lenF: "length F = n" using n(1) by (simp add: F length_flags_of)
  have f01: "\<forall>j < length F. F ! j = 0 \<or> F ! j = 1"
    using flags_of_01 [of _ ps n] by (auto simp: F)
  have a: "\<forall>j < nat (int n). (F @ frest) ! j = 0 \<or> (F @ frest) ! j = 1"
    using f01 by (simp add: nth_append lenF)
  have b: "\<forall>j < nat (int n). (inclusive_scan (+) F @ srest) ! j
              = int (flag_count (F @ frest) (Suc j))"
  proof (intro allI impI)
    fix j assume "j < nat (int n)"
    then have j: "j < length F" by (simp add: lenF)
    then have "(inclusive_scan (+) F @ srest) ! j = sum_list (take (Suc j) F)"
      by (simp add: nth_append length_inclusive_scan inclusive_scan_plus_nth)
    also have "\<dots> = int (flag_count F (Suc j))"
      using f01 j by (intro sum_take_flag_count) simp_all
    also have "flag_count F (Suc j) = flag_count (F @ frest) (Suc j)"
      using j by (simp add: flag_count_append)
    finally show "(inclusive_scan (+) F @ srest) ! j = int (flag_count (F @ frest) (Suc j))" .
  qed
  have c: "filter (\<lambda>j. (F @ frest) ! j \<noteq> 0) [0..<n] = flagged_idx F"
    unfolding flagged_idx_def lenF by (rule filter_cong) (simp_all add: nth_append lenF)
  have "unique_index_loop (F @ frest) (inclusive_scan (+) F @ srest) unique_index (int n) 0 =
      Some (take (flag_count (F @ frest) (nat 0)) unique_index
            @ map int (filter (\<lambda>j. (F @ frest) ! j \<noteq> 0) [nat 0..<nat (int n)])
            @ drop (flag_count (F @ frest) (nat (int n))) unique_index)"
    using n a b by (intro unique_index_loop_result) (simp_all add: lenF length_inclusive_scan)
  then show ?thesis
    by (simp add: unique_index_kernel_def c flag_count_flagged_idx lenF flag_count_def)
qed

lemma create_fpr_kernel_eq:
  assumes "0 < k" and "k \<le> length tpr0" and "k \<le> length unique_index" and "k \<le> length fpr0"
  shows "create_fpr_kernel sch tpr0 unique_index fpr0 (int k) num_total =
           Some (map (\<lambda>i. fdiv (tpr0 ! i)
                        (if reads_late sch (int k) (int i)
                         then fdiv (tpr0 ! (k - 1)) (tpr0 ! (k - 1)) else tpr0 ! (k - 1)))
                   [0..<k] @ drop k tpr0,
                 map (\<lambda>i. fdiv (fsub (fadd (Fin 1) (f32_of_int (unique_index ! i))) (tpr0 ! i))
                        (fsub (f32_of_int num_total)
                           (if reads_late sch (int k) (int i)
                            then fdiv (tpr0 ! (k - 1)) (tpr0 ! (k - 1)) else tpr0 ! (k - 1))))
                   [0..<k] @ drop k fpr0)"
proof -
  define c where "c = tpr0 ! (k - 1)"
  define P where "P = (\<lambda>i. if reads_late sch (int k) (int i) then fdiv c c else c)"
  have r: "rd tpr0 (int k - 1) = Some c"
    using assms by (simp add: rd_def c_def nat_diff_distrib)
  from create_fpr_loop_result [of 0 "int k" tpr0 unique_index fpr0 tpr0 c sch num_total,
      OF _ _ _ _ r] assms
  obtain tpr' fpr' where l:
    "create_fpr_loop sch tpr0 tpr0 unique_index fpr0 (int k) num_total 0 = Some (tpr', fpr')"
    "length tpr' = length tpr0" "length fpr' = length fpr0"
    "\<forall>i < length tpr0. tpr' ! i = (if i < k then fdiv (tpr0 ! i) (P i) else tpr0 ! i)"
    "\<forall>i < length fpr0. fpr' ! i =
        (if i < k then fdiv (fsub (fadd (Fin 1) (f32_of_int (unique_index ! i))) (tpr0 ! i))
                         (fsub (f32_of_int num_total) (P i))
         else fpr0 ! i)"
    unfolding P_def by auto
  have t: "tpr' = map (\<lambda>i. fdiv (tpr0 ! i) (P i)) [0..<k] @ drop k tpr0"
    using assms l(2,4) by (intro nth_equalityI) (auto simp: nth_append)
  have f: "fpr' = map (\<lambda>i. fdiv (fsub (fadd (Fin 1) (f32_of_int (unique_index ! i))) (tpr0 ! i))
                       (fsub (f32_of_int num_total) (P i))) [0..<k] @ drop k fpr0"
    using assms l(3,5) by (intro nth_equalityI) (auto simp: nth_append)
  show ?thesis
    using l(1) r unfolding t f by (simp add: create_fpr_kernel_def P_def c_def)
qed

lemma trapz_area_eq:
  assumes "i + 1 < length x" and "i + 1 < length y"
  shows "trapz_area y x (int i) = Some (trapezoid_term x y i)"
proof -
  have r: "rd x (int i) = Some (x ! i)" "rd x (int i + 1) = Some (x ! (i + 1))"
    "rd y (int i) = Some (y ! i)" "rd y (int i + 1) = Some (y ! (i + 1))"
    using assms by (simp_all add: rd_def nat_add_distrib)
  show ?thesis
    unfolding trapz_area_def r
    by (simp add: trapezoid_term_def segment_area_def origin_triangle_def Let_def)
qed

lemma trapz_adds_eq:
  assumes "\<forall>i \<in> set gids. i + 1 < length x \<and> i + 1 < length y"
  shows "trapz_adds y x a gids = Some (foldl fadd a (map (trapezoid_term x y) gids))"
  using assms by (induction gids arbitrary: a) (simp_all add: trapz_area_eq)

lemma block_gids_eq:
  "block_gids (int k) b = filter (\<lambda>i. block_of i = b) [0..<k - 1]"
proof -
  have "nat (int k - 1) = k - 1" by simp
  then show ?thesis by (simp add: block_gids_def)
qed

lemma set_block_adds: "set (block_adds sch k b) = {i. i < k - 1 \<and> block_of i = b}"
  by (auto simp: block_adds_def)

lemma distinct_block_adds: "distinct (block_adds sch k b)"
  by (simp add: block_adds_def)

lemma trapz_block_eq:
  assumes "k \<le> length x" and "k \<le> length y"
  shows "trapz_block sch y x (int k) b = Some (block_sum sch x y k b)"
proof -
  have "\<forall>i \<in> set (block_adds sch k b). i + 1 < length x \<and> i + 1 < length y"
    using assms by (auto simp: set_block_adds)
  then show ?thesis
    unfolding trapz_block_def block_gids_eq block_adds_def [symmetric] block_sum_def
    by (rule trapz_adds_eq)
qed

lemma trapz_blocks_eq:
  assumes "k \<le> length x" and "k \<le> length y"
  shows "trapz_blocks sch y x auc (int k) bs =
           Some (foldl fadd auc (map (block_sum sch x y k) bs))"
  by (induction bs arbitrary: auc) (simp_all add: trapz_block_eq [OF assms])

lemma trapz_kernel_eq:
  assumes "k \<le> length x" and "k \<le> length y"
  shows "trapz_kernel sch y x auc (int k) =
           Some (foldl fadd auc (map (block_sum sch x y k) (block_order sch)))"
  unfolding trapz_kernel_def block_order_def [symmetric] by (rule trapz_blocks_eq [OF assms])

lemma trapezoid_term_append:
  assumes "i + 1 < length xs" and "i + 1 < length ys"
  shows "trapezoid_term (xs @ xr) (ys @ yr) i = trapezoid_term xs ys i"
proof -
  have n: "(xs @ xr) ! j = xs ! j" "(ys @ yr) ! j = ys ! j" if "j \<le> i + 1" for j
    using that assms by (simp_all add: nth_append)
  have "(0::nat) \<le> i + 1" "Suc 0 \<le> i + 1" "i \<le> i + 1" "i + 1 \<le> i + 1" by simp_all
  then show ?thesis
    by (simp add: trapezoid_term_def segment_area_def origin_triangle_def n del: nth_append)
qed

lemma length_insert_desc: "length (insert_desc p qs) = Suc (length qs)"
  by (induction qs) simp_all

lemma length_sort_desc: "length (sort_desc ps) = length ps"
  by (induction ps) (simp_all add: sort_desc_def length_insert_desc)

lemma set_insert_desc: "set (insert_desc p qs) = insert p (set qs)"
  by (induction qs) auto

lemma set_sort_desc: "set (sort_desc ps) = set ps"
  by (induction ps) (simp_all add: sort_desc_def set_insert_desc)

lemma flag_at_append: "i + 1 < length ps \<Longrightarrow> flag_at (ps @ r) i = flag_at ps i"
  by (simp add: flag_at_def nth_append)

lemma flags_of_append: "flags_of (ps @ r) (length ps) = flags_of ps (length ps)"
  by (simp add: flags_of_def flag_at_append)

lemma map_nth_idx: "map (\<lambda>j. g (idx ! j)) [0..<length idx] = map g idx"
  by (rule nth_equalityI) simp_all

lemma finalize_result:
  assumes pid: "pid s = 0"
    and n: "int n = offset s * num_procs s" "0 < n"
    and cap: "n \<le> length (d_pred s)" "n \<le> length (d_label s)"
      "n \<le> length (d_pred_sort s)" "n \<le> length (d_label_sort s)"
      "n \<le> length (d_inc_sum s)" "n \<le> length (tpr s)" "n \<le> length (fpr s)"
      "n \<le> length (d_flag s)" "n \<le> length (d_flag_inc_sum s)"
      "n \<le> length (d_unique_index s)"
    and ps: "ps = map fst (sort_desc (zip (take n (d_pred s)) (take n (d_label s))))"
    and ls: "ls = map snd (sort_desc (zip (take n (d_pred s)) (take n (d_label s))))"
    and k: "k = length (roc_points ps)"
  shows "AUC_finalize_metric sch s = Some (roc_auc sch ps ls,
      s\<lparr>offset := 0,
        d_pred_sort := ps @ drop n (d_pred_sort s),
        d_label_sort := ls @ drop n (d_label_sort s),
        d_flag := flags_of ps n @ drop n (d_flag s),
        d_inc_sum := cum_labels ls @ drop n (d_inc_sum s),
        tpr := sched_tpr sch ps ls @ drop k (tpr s),
        fpr := sched_fpr sch ps ls @ drop k (fpr s),
        d_num_selected_out := int k,
        d_flag_inc_sum := inclusive_scan (+) (flags_of ps n) @ drop n (d_flag_inc_sum s),
        d_unique_index := map int (roc_points ps) @ drop k (d_unique_index s),
        d_auc := roc_auc sch ps ls\<rparr>)"
proof -
  define F where "F = flags_of ps n"
  define idx where "idx = roc_points ps"
  define cum where "cum = cum_labels ls"
  define counts where "counts = map (\<lambda>i. cum ! i) idx"
  have lps: "length ps = n" and lls: "length ls = n"
    using cap(1,2) by (simp_all add: ps ls length_sort_desc)
  have lF: "length F = n" using n(2) by (simp add: F_def length_flags_of)
  have lcum: "length cum = n" by (simp add: cum_def cum_labels_def length_inclusive_scan lls)
  have idxF: "idx = flagged_idx F" by (simp add: idx_def roc_points_def F_def lps)
  have lidx: "length idx = k" by (simp add: idx_def k)
  have kn: "k \<le> n"
  proof -
    have "length (flagged_idx F) \<le> length [0..<length F]"
      unfolding flagged_idx_def by (rule length_filter_le)
    then show ?thesis by (simp add: lidx [symmetric] idxF lF)
  qed
  have kpos: "0 < k" and lastidx: "idx ! (k - 1) = n - 1"
  proof -
    from flagged_idx_last [OF n(2), of ps] have ne: "idx \<noteq> []" and l: "last idx = n - 1"
      by (simp_all add: idxF F_def)
    from ne show "0 < k" by (simp add: lidx [symmetric])
    from ne l show "idx ! (k - 1) = n - 1" by (simp add: last_conv_nth lidx)
  qed
  have idxb: "i < n" if "i \<in> set idx" for i
    using that flagged_idx_bound [of i F] by (simp add: idxF lF)
  have lcounts: "length counts = k" by (simp add: counts_def lidx)
  \<comment> \<open>the sort\<close>
  have s1: "cub_SortPairsDescending (d_pred s) (d_pred_sort s) (d_label s) (d_label_sort s) (int n)
      = Some (ps @ drop n (d_pred_sort s), ls @ drop n (d_label_sort s))"
    using cap(1-4) lps lls
    by (simp add: cub_SortPairsDescending_def prefix_of_Some store_prefix_Some Let_def
        ps [symmetric] ls [symmetric])
  \<comment> \<open>the flags\<close>
  have s2: "unique_flag_kernel (ps @ drop n (d_pred_sort s)) (d_flag s) (int n)
      = Some (F @ drop n (d_flag s))"
    using unique_flag_kernel_eq [of "int n" "ps @ drop n (d_pred_sort s)" "d_flag s"]
      n(2) cap(8) lps flags_of_append [of ps "drop n (d_pred_sort s)"]
    by (simp add: F_def)
  \<comment> \<open>the cumulative label sums\<close>
  have s3: "cub_InclusiveSum fadd (ls @ drop n (d_label_sort s)) (d_inc_sum s) (int n)
      = Some (cum @ drop n (d_inc_sum s))"
    using cap(5) lls lcum
    by (simp add: cub_InclusiveSum_def prefix_of_Some store_prefix_Some cum_def cum_labels_def)
  \<comment> \<open>the compaction\<close>
  have sel: "select_flagged cum F = counts"
    by (simp add: select_flagged_idx lcum lF counts_def idxF)
  have s4: "cub_Flagged (cum @ drop n (d_inc_sum s)) (F @ drop n (d_flag s)) (tpr s) (int n)
      = Some (counts @ drop k (tpr s), int k)"
    using cap(6) kn lcum lF lcounts
    by (simp add: cub_Flagged_def prefix_of_Some store_prefix_Some Let_def sel)
  \<comment> \<open>the ranks\<close>
  have s5: "cub_InclusiveSum (+) (F @ drop n (d_flag s)) (d_flag_inc_sum s) (int n)
      = Some (inclusive_scan (+) F @ drop n (d_flag_inc_sum s))"
    using cap(9) lF
    by (simp add: cub_InclusiveSum_def prefix_of_Some store_prefix_Some length_inclusive_scan)
  have s6: "unique_index_kernel (F @ drop n (d_flag s))
        (inclusive_scan (+) F @ drop n (d_flag_inc_sum s)) (d_unique_index s) (int n)
      = Some (map int idx @ drop k (d_unique_index s))"
    using unique_index_kernel_eq [OF n(2) cap(10) cap(8) F_def,
        of "drop n (d_flag s)" "drop n (d_flag_inc_sum s)"]
    by (simp add: idxF [symmetric] lidx)
  \<comment> \<open>the rates\<close>
  have pos: "(counts @ drop k (tpr s)) ! (k - 1) = total_pos ls"
    using kpos lastidx by (simp add: nth_append lcounts counts_def lidx total_pos_def
        cum_def lls)
  have c: "(counts @ drop k (tpr s)) ! i = cum_labels ls ! (roc_points ps ! i)" if "i < k" for i
    using that unfolding idx_def [symmetric] cum_def [symmetric]
    by (simp add: nth_append lcounts counts_def lidx)
  have u: "(map int idx @ drop k (d_unique_index s)) ! i = int (roc_points ps ! i)" if "i < k" for i
    using that unfolding idx_def [symmetric] by (simp add: nth_append lidx)
  have t: "map (\<lambda>i. fdiv ((counts @ drop k (tpr s)) ! i)
               (if reads_late sch (int k) (int i)
                then fdiv (total_pos ls) (total_pos ls) else total_pos ls)) [0..<k]
      = sched_tpr sch ps ls"
    unfolding sched_tpr_def k [symmetric] pos_read_def
    by (rule map_cong) (simp_all add: c)
  have f: "map (\<lambda>i. fdiv (fsub (fadd (Fin 1)
              (f32_of_int ((map int idx @ drop k (d_unique_index s)) ! i)))
              ((counts @ drop k (tpr s)) ! i))
              (fsub (f32_of_int (int n))
                 (if reads_late sch (int k) (int i)
                  then fdiv (total_pos ls) (total_pos ls) else total_pos ls))) [0..<k]
        = sched_fpr sch ps ls"
    unfolding sched_fpr_def k [symmetric] pos_read_def lls
    by (rule map_cong) (simp_all add: c u)
  have s7: "create_fpr_kernel sch (counts @ drop k (tpr s))
        (map int idx @ drop k (d_unique_index s)) (fpr s) (int k) (int n)
      = Some (sched_tpr sch ps ls @ drop k (tpr s), sched_fpr sch ps ls @ drop k (fpr s))"
  proof -
    have "create_fpr_kernel sch (counts @ drop k (tpr s))
        (map int idx @ drop k (d_unique_index s)) (fpr s) (int k) (int n)
      = Some (map (\<lambda>i. fdiv ((counts @ drop k (tpr s)) ! i)
                    (if reads_late sch (int k) (int i)
                     then fdiv ((counts @ drop k (tpr s)) ! (k - 1))
                            ((counts @ drop k (tpr s)) ! (k - 1))
                     else (counts @ drop k (tpr s)) ! (k - 1)))
                [0..<k] @ drop k (counts @ drop k (tpr s)),
              map (\<lambda>i. fdiv (fsub (fadd (Fin 1)
                  (f32_of_int ((map int idx @ drop k (d_unique_index s)) ! i)))
                  ((counts @ drop k (tpr s)) ! i))
                  (fsub (f32_of_int (int n))
                     (if reads_late sch (int k) (int i)
                      then fdiv ((counts @ drop k (tpr s)) ! (k - 1))
                             ((counts @ drop k (tpr s)) ! (k - 1))
                      else (counts @ drop k (tpr s)) ! (k - 1))))
                [0..<k] @ drop k (fpr s))"
      using kpos kn cap(6,7,10) by (intro create_fpr_kernel_eq) (simp_all add: lcounts lidx)
    then show ?thesis unfolding pos t f by (simp add: lcounts)
  qed
  \<comment> \<open>the integration\<close>
  have ltpr: "length (sched_tpr sch ps ls) = k" and lfpr: "length (sched_fpr sch ps ls) = k"
    by (simp_all add: sched_tpr_def sched_fpr_def k)
  have s8: "trapz_kernel sch (sched_tpr sch ps ls @ drop k (tpr s))
        (sched_fpr sch ps ls @ drop k (fpr s)) (Fin 0) (int k) = Some (roc_auc sch ps ls)"
  proof -
    have "block_sum sch (sched_fpr sch ps ls @ drop k (fpr s))
        (sched_tpr sch ps ls @ drop k (tpr s)) k b
        = block_sum sch (sched_fpr sch ps ls) (sched_tpr sch ps ls) k b" for b
      unfolding block_sum_def
      by (intro arg_cong [where f = "foldl fadd (Fin 0)"] map_cong refl trapezoid_term_append)
        (auto simp: set_block_adds ltpr lfpr)
    then have "block_sum sch (sched_fpr sch ps ls @ drop k (fpr s))
        (sched_tpr sch ps ls @ drop k (tpr s)) k
        = block_sum sch (sched_fpr sch ps ls) (sched_tpr sch ps ls) k"
      by (rule ext)
    then show ?thesis
      using trapz_kernel_eq [of k "sched_fpr sch ps ls @ drop k (fpr s)"
          "sched_tpr sch ps ls @ drop k (tpr s)" sch "Fin 0"]
      by (simp add: ltpr lfpr roc_auc_def trapezoid_sum_def k [symmetric])
  qed
  have "AUC_finalize_metric sch s = Some (roc_auc sch ps ls,
      s\<lparr>offset := 0,
        d_pred_sort := ps @ drop n (d_pred_sort s),
        d_label_sort := ls @ drop n (d_label_sort s),
        d_flag := F @ drop n (d_flag s),
        d_inc_sum := cum @ drop n (d_inc_sum s),
        tpr := sched_tpr sch ps ls @ drop k (tpr s),
        fpr := sched_fpr sch ps ls @ drop k (fpr s),
        d_num_selected_out := int k,
        d_flag_inc_sum := inclusive_scan (+) F @ drop n (d_flag_inc_sum s),
        d_unique_index := map int idx @ drop k (d_unique_index s),
        d_auc := roc_auc sch ps ls\<rparr>)"
    unfolding AUC_finalize_metric_def Let_def n(1) [symmetric] initialize_array_def
    by (simp only: pid simp_thms if_True s1 s2 s3 s4 s5 s6 s7 s8 Option.bind.simps prod.case)
  then show ?thesis by (simp only: F_def cum_def idx_def)
qed

section \<open>The schedules of the two kernels\<close>

lemma block_of_small: "i < block_dim \<Longrightarrow> block_of i = 0"
  by (simp add: block_of_def block_dim_def grid_dim_def)

lemma block_of_less: "block_of i < grid_dim"
  by (simp add: block_of_def block_dim_def grid_dim_def less_mult_imp_div_less mult.commute)

lemma warp_of_small: "i < warp_size \<Longrightarrow> warp_of i = 0"
  by (simp add: warp_of_def warp_size_def block_dim_def grid_dim_def)

lemma reads_late_first_warp:
  assumes "k \<le> warp_size" and "j < k"
  shows "\<not> reads_late sch (int k) (int j)"
proof -
  have "nat (int k - 1) = k - 1" by simp
  moreover have "warp_of j = 0" "warp_of (k - 1) = 0"
    using assms by (simp_all add: warp_of_small)
  ultimately show ?thesis by (simp add: reads_late_def)
qed

lemma reads_late_last: "0 < k \<Longrightarrow> \<not> reads_late sch (int k) (int (k - 1))"
proof -
  assume "0 < k"
  then have "nat (int (k - 1)) = nat (int k - 1)" by simp
  then show ?thesis unfolding reads_late_def by simp
qed

lemma in_time_small: "k \<le> warp_size \<Longrightarrow> in_time sch k"
  by (simp add: in_time_def list_all_iff reads_late_first_warp)

lemma sched_rates_in_time:
  assumes "in_time sch (length (roc_points ps))"
  shows "sched_tpr sch ps ls = roc_tpr ps ls" and "sched_fpr sch ps ls = roc_fpr ps ls"
proof -
  have p: "pos_read sch (length (roc_points ps)) ls j = total_pos ls"
    if "j < length (roc_points ps)" for j
    using assms that by (simp add: in_time_def list_all_iff pos_read_def)
  have "sched_tpr sch ps ls =
      map (\<lambda>j. fdiv (cum_labels ls ! (roc_points ps ! j)) (total_pos ls)) [0..<length (roc_points ps)]"
    unfolding sched_tpr_def by (rule map_cong) (simp_all add: p)
  also have "\<dots> = roc_tpr ps ls" unfolding roc_tpr_def by (rule map_nth_idx)
  finally show "sched_tpr sch ps ls = roc_tpr ps ls" .
  have "sched_fpr sch ps ls =
      map (\<lambda>j. fdiv (fsub (fadd (Fin 1) (f32_of_int (int (roc_points ps ! j))))
                  (cum_labels ls ! (roc_points ps ! j))) (total_neg ls))
        [0..<length (roc_points ps)]"
    unfolding sched_fpr_def by (rule map_cong) (simp_all add: p total_neg_def)
  also have "\<dots> = roc_fpr ps ls" unfolding roc_fpr_def by (rule map_nth_idx)
  finally show "sched_fpr sch ps ls = roc_fpr ps ls" .
qed

lemma length_sched_rates:
  "length (sched_tpr sch ps ls) = length (roc_points ps)"
  "length (sched_fpr sch ps ls) = length (roc_points ps)"
  by (simp_all add: sched_tpr_def sched_fpr_def)

lemma sched_rates_last:
  assumes "roc_points ps \<noteq> []" and "k = length (roc_points ps)"
  shows "sched_tpr sch ps ls ! (k - 1) = roc_tpr ps ls ! (k - 1)"
    and "sched_fpr sch ps ls ! (k - 1) = roc_fpr ps ls ! (k - 1)"
proof -
  from assms have k: "0 < k" "k - 1 < k" by simp_all
  have p: "pos_read sch k ls (k - Suc 0) = total_pos ls"
    using reads_late_last [OF k(1), of sch] by (simp add: pos_read_def)
  show "sched_tpr sch ps ls ! (k - 1) = roc_tpr ps ls ! (k - 1)"
    using k(2) by (simp add: sched_tpr_def roc_tpr_def assms(2) [symmetric] p)
  show "sched_fpr sch ps ls ! (k - 1) = roc_fpr ps ls ! (k - 1)"
    using k(2) by (simp add: sched_fpr_def roc_fpr_def assms(2) [symmetric] p total_neg_def)
qed

lemma set_block_order: "set (block_order sch) = {0..<grid_dim}" "distinct (block_order sch)"
  by (simp_all add: block_order_def)

lemma block_adds_small:
  assumes "k - 1 \<le> block_dim"
  shows "block_adds sch k b = (if b = 0 then sort_key (add_time sch) [0..<k - 1] else [])"
proof -
  have "filter (\<lambda>i. block_of i = b) [0..<k - 1] = (if b = 0 then [0..<k - 1] else [])"
    using assms by (auto simp: filter_empty_conv block_of_small intro!: filter_True)
  then show ?thesis by (simp add: block_adds_def)
qed

lemma foldl_fadd_zero: "\<forall>x \<in> set xs. x = Fin 0 \<Longrightarrow> foldl fadd (Fin 0) xs = Fin 0"
  by (induction xs) (simp_all add: rnd32_0)

lemma foldl_fadd_zeros: "fadd v (Fin 0) = v \<Longrightarrow> \<forall>x \<in> set xs. x = Fin 0 \<Longrightarrow> foldl fadd v xs = v"
  by (induction xs) simp_all

lemma foldl_fadd_only:
  assumes "distinct bs" and "b0 \<in> set bs" and "\<forall>b \<in> set bs. b \<noteq> b0 \<longrightarrow> g b = Fin 0"
    and "fadd (Fin 0) (g b0) = g b0" and "fadd (g b0) (Fin 0) = g b0"
  shows "foldl fadd (Fin 0) (map g bs) = g b0"
proof -
  from assms(2) obtain xs ys where bs: "bs = xs @ b0 # ys" by (auto dest: split_list)
  with assms(1) have n: "b0 \<notin> set xs" "b0 \<notin> set ys" by auto
  have x: "\<forall>v \<in> set (map g xs). v = Fin 0" using assms(3) n(1) by (auto simp: bs)
  have y: "\<forall>v \<in> set (map g ys). v = Fin 0" using assms(3) n(2) by (auto simp: bs)
  show ?thesis
    by (simp add: bs foldl_fadd_zero [OF x] assms(4) foldl_fadd_zeros [OF assms(5) y])
qed

lemma trapezoid_sum_small:
  assumes "k - 1 \<le> block_dim"
    and "foldl fadd (Fin 0) (map (trapezoid_term x y) (sort_key (add_time sch) [0..<k - 1])) = v"
    and "fadd (Fin 0) v = v" and "fadd v (Fin 0) = v"
  shows "trapezoid_sum sch x y k = v"
proof -
  have g0: "block_sum sch x y k 0 = v"
    using assms(2) by (simp add: block_sum_def block_adds_small [OF assms(1)])
  have g: "\<forall>b \<in> set (block_order sch). b \<noteq> 0 \<longrightarrow> block_sum sch x y k b = Fin 0"
    by (simp add: block_sum_def block_adds_small [OF assms(1)])
  have "0 \<in> set (block_order sch)" by (simp add: set_block_order grid_dim_def)
  from foldl_fadd_only [OF set_block_order(2) this g] assms(3,4) show ?thesis
    by (simp add: trapezoid_sum_def g0)
qed

lemma trapezoid_sum_single: "trapezoid_sum sch x y (Suc 0) = Fin 0"
  by (rule trapezoid_sum_small) (simp_all add: block_dim_def rnd32_0)

section \<open>The example of the specification\<close>

lemma rnd32_halves:
  "rnd32 (1 / 2) = Fin (1 / 2)" "rnd32 (3 / 2) = Fin (3 / 2)"
  "rnd32 (1 / 4) = Fin (1 / 4)" "rnd32 (3 / 4) = Fin (3 / 4)"
  using rnd32_dyadic [of 1 1] rnd32_dyadic [of 3 1] rnd32_dyadic [of 1 2] rnd32_dyadic [of 3 2]
  by simp_all

lemma upt_4: "[0..<4] = [0, 1, 2, 3]" "[0..<3] = [0, 1, 2]"
  by (simp_all add: upt_rec [of 0] upt_rec [of 1] upt_rec [of 2] upt_rec [of 3] numeral_eq_Suc
      upt_rec [of "Suc 0"] upt_rec [of "Suc (Suc 0)"] upt_rec [of "Suc (Suc (Suc 0))"])

lemma example_pred_values:
  "example_pred = [Fin (7549747 / 8388608), Fin (13421773 / 16777216),
                   Fin (11744051 / 16777216), Fin (5033165 / 8388608)]"
  by (simp add: example_pred_def rnd32_9_10 rnd32_8_10 rnd32_7_10 rnd32_6_10)

lemma example_run_eq: "example_run = Some example_state"
  by (simp add: example_run_def example_state_def AUC_local_reduce_def AUC_global_reduce_def
      AUC_init_def rd_def num_active_gpu_and_r_def signed_divide_int_def signed_modulo_int_def
      copy_all_def copy_pred_def example_pred_def example_label_def)

lemma example_state_fields:
  "pid example_state = 0" "offset example_state = 4" "num_procs example_state = 1"
  "d_pred example_state = example_pred" "d_label example_state = example_label"
  "length (d_pred_sort example_state) = 4" "length (d_label_sort example_state) = 4"
  "length (d_inc_sum example_state) = 4" "length (tpr example_state) = 4"
  "length (fpr example_state) = 4" "length (d_flag example_state) = 4"
  "length (d_flag_inc_sum example_state) = 4" "length (d_unique_index example_state) = 4"
  by (simp_all add: example_state_def AUC_init_def)

lemma example_sorted:
  "sort_desc (zip example_pred example_label) = zip example_pred example_label"
  by (simp add: example_pred_values example_label_def sort_desc_def key_less_def)

lemma example_flags: "flags_of example_pred 4 = [1, 1, 1, 1]"
  by (simp add: flags_of_def upt_4 flag_at_def example_pred_values fsub_Fin fgt_rnd32_eps)

lemma example_length: "length example_pred = 4" "length example_label = 4"
  by (simp_all add: example_pred_def example_label_def)

lemma example_points: "roc_points example_pred = [0, 1, 2, 3]"
  by (simp only: roc_points_def example_length example_flags) (simp add: flagged_idx_def upt_4)

lemma example_cum: "cum_labels example_label = [Fin 1, Fin 1, Fin 2, Fin 2]"
  by (simp add: cum_labels_def example_label_def rnd32_small)

lemma example_totals: "total_pos example_label = Fin 2" "total_neg example_label = Fin 2"
  by (simp_all add: total_pos_def total_neg_def example_cum)
     (simp_all add: example_label_def f32_of_int_small fsub_Fin rnd32_small)

lemma example_tpr: "roc_tpr example_pred example_label = [Fin (1 / 2), Fin (1 / 2), Fin 1, Fin 1]"
  by (simp add: roc_tpr_def example_points example_cum example_totals rnd32_halves rnd32_small)

lemma example_fpr: "roc_fpr example_pred example_label = [Fin 0, Fin (1 / 2), Fin (1 / 2), Fin 1]"
  by (simp add: roc_fpr_def example_points example_cum example_totals rnd32_halves rnd32_small
      f32_of_int_small fsub_Fin)

lemma example_in_time: "in_time sch (length (roc_points example_pred))"
  by (rule in_time_small) (simp add: example_points warp_size_def)

lemma example_sched_rates:
  "sched_tpr sch example_pred example_label = [Fin (1 / 2), Fin (1 / 2), Fin 1, Fin 1]"
  "sched_fpr sch example_pred example_label = [Fin 0, Fin (1 / 2), Fin (1 / 2), Fin 1]"
  by (simp_all add: sched_rates_in_time [OF example_in_time] example_tpr example_fpr)

lemma example_terms:
  "trapezoid_term [Fin 0, Fin (1 / 2), Fin (1 / 2), Fin 1] [Fin (1 / 2), Fin (1 / 2), Fin 1, Fin 1] 0
     = Fin (1 / 4)"
  "trapezoid_term [Fin 0, Fin (1 / 2), Fin (1 / 2), Fin 1] [Fin (1 / 2), Fin (1 / 2), Fin 1, Fin 1]
     (Suc 0) = Fin 0"
  "trapezoid_term [Fin 0, Fin (1 / 2), Fin (1 / 2), Fin 1] [Fin (1 / 2), Fin (1 / 2), Fin 1, Fin 1] 2
     = Fin (1 / 2)"
  by (simp_all add: trapezoid_term_def segment_area_def origin_triangle_def fsub_Fin rnd32_halves
      rnd32_small)

lemma example_auc: "roc_auc sch example_pred example_label = Fin (3 / 4)"
proof -
  have "foldl fadd (Fin 0)
      (map (trapezoid_term [Fin 0, Fin (1 / 2), Fin (1 / 2), Fin 1]
              [Fin (1 / 2), Fin (1 / 2), Fin 1, Fin 1])
         (sort_key (add_time sch) [0, 1, 2])) = Fin (3 / 4)"
    by (simp add: example_terms rnd32_halves rnd32_small)
  moreover have "[0..<length [0::nat, 1, 2, 3] - 1] = [0, 1, 2]" by (simp add: upt_4)
  ultimately have a: "foldl fadd (Fin 0)
      (map (trapezoid_term [Fin 0, Fin (1 / 2), Fin (1 / 2), Fin 1]
              [Fin (1 / 2), Fin (1 / 2), Fin 1, Fin 1])
         (sort_key (add_time sch) [0..<length [0::nat, 1, 2, 3] - 1])) = Fin (3 / 4)"
    by (simp only:)
  have b: "length [0::nat, 1, 2, 3] - 1 \<le> block_dim" by (simp add: block_dim_def)
  have c: "fadd (Fin 0) (Fin (3 / 4)) = Fin (3 / 4)" "fadd (Fin (3 / 4)) (Fin 0) = Fin (3 / 4)"
    by (simp_all add: rnd32_halves)
  show ?thesis
    unfolding roc_auc_def example_sched_rates example_points
    by (rule trapezoid_sum_small [OF b a c])
qed

section \<open>The finalize pipeline on a well-formed state\<close>

lemma finalize_finalized:
  assumes "pid s = 0" and "int n = offset s * num_procs s" and "0 < n" and "capacity_ok s n"
  shows "AUC_finalize_metric sch s =
           Some (roc_auc sch (sorted_preds s n) (sorted_labels s n), finalized sch s n)"
  unfolding finalized_def Let_def
  using assms(4)
  by (intro finalize_result [OF assms(1,2,3)]) (simp_all add: capacity_ok_def sorted_preds_def
      sorted_labels_def)

lemma length_sorted:
  assumes "capacity_ok s n"
  shows "length (sorted_preds s n) = n" "length (sorted_labels s n) = n"
  using assms by (simp_all add: sorted_preds_def sorted_labels_def length_sort_desc capacity_ok_def)

lemma roc_points_props:
  assumes "ps \<noteq> []"
  shows "roc_points ps \<noteq> []" "last (roc_points ps) = length ps - 1"
    "sorted (roc_points ps)" "distinct (roc_points ps)"
    "set (roc_points ps) =
       {j. j < length ps \<and> (j = length ps - 1 \<or> fgt (fsub (ps ! j) (ps ! (j + 1))) eps)}"
proof -
  from assms have n: "0 < length ps" by simp
  show "roc_points ps \<noteq> []" "last (roc_points ps) = length ps - 1"
    using flagged_idx_last [OF n, of ps] by (simp_all add: roc_points_def)
  show "sorted (roc_points ps)" "distinct (roc_points ps)"
    by (simp_all add: roc_points_def sorted_flagged_idx)
  show "set (roc_points ps) =
       {j. j < length ps \<and> (j = length ps - 1 \<or> fgt (fsub (ps ! j) (ps ! (j + 1))) eps)}"
    using n by (auto simp: roc_points_def flagged_idx_def length_flags_of flags_of_nth flag_at_def
        split: if_splits)
qed

lemma length_roc_points: "ps \<noteq> [] \<Longrightarrow> length (roc_points ps) \<le> length ps"
proof -
  assume "ps \<noteq> []"
  then have "length (flags_of ps (length ps)) = length ps" by (simp add: length_flags_of)
  moreover have "length (roc_points ps) \<le> length [0..<length (flags_of ps (length ps))]"
    unfolding roc_points_def flagged_idx_def by (rule length_filter_le)
  ultimately show ?thesis by simp
qed

lemma length_roc_rates:
  "length (roc_tpr ps ls) = length (roc_points ps)" "length (roc_fpr ps ls) = length (roc_points ps)"
  by (simp_all add: roc_tpr_def roc_fpr_def)

lemma finalized_fields:
  "offset (finalized sch s n) = 0"
  "d_num_selected_out (finalized sch s n) = int (length (roc_points (sorted_preds s n)))"
  "take (length (roc_points (sorted_preds s n))) (tpr (finalized sch s n)) =
     sched_tpr sch (sorted_preds s n) (sorted_labels s n)"
  "take (length (roc_points (sorted_preds s n))) (fpr (finalized sch s n)) =
     sched_fpr sch (sorted_preds s n) (sorted_labels s n)"
  "d_auc (finalized sch s n) = roc_auc sch (sorted_preds s n) (sorted_labels s n)"
  by (simp_all add: finalized_def Let_def length_sched_rates)

lemma finalized_rates_nth:
  assumes "i < length (roc_points (sorted_preds s n))"
  shows "tpr (finalized sch s n) ! i = sched_tpr sch (sorted_preds s n) (sorted_labels s n) ! i"
    and "fpr (finalized sch s n) ! i = sched_fpr sch (sorted_preds s n) (sorted_labels s n) ! i"
  using assms by (simp_all add: finalized_def Let_def nth_append length_sched_rates)

lemma example_capacity: "capacity_ok example_state 4"
  by (simp add: capacity_ok_def example_state_fields example_length)

lemma example_sorted_fields:
  "sorted_preds example_state 4 = example_pred" "sorted_labels example_state 4 = example_label"
  by (simp_all add: sorted_preds_def sorted_labels_def example_state_fields example_length
      example_sorted)

lemma example_finalized:
  "AUC_finalize_metric sch example_state =
     Some (roc_auc sch example_pred example_label, finalized sch example_state 4)"
  using finalize_finalized [of example_state 4 sch]
  by (simp add: example_state_fields example_capacity example_sorted_fields)

lemma example_finalized_rates:
  "d_num_selected_out (finalized sch example_state 4) = 4"
  "take 4 (tpr (finalized sch example_state 4)) = [Fin (1 / 2), Fin (1 / 2), Fin 1, Fin 1]"
  "take 4 (fpr (finalized sch example_state 4)) = [Fin 0, Fin (1 / 2), Fin (1 / 2), Fin 1]"
  by (simp_all add: finalized_def Let_def example_sorted_fields example_points
      example_sched_rates)

text \<open>
  C1: the predictions 0.9, 0.8, 0.7, 0.6 with the labels 1, 0, 1, 0 give four compacted
  points, the true-positive rates 0.5, 0.5, 1, 1, the false-positive rates 0, 0.5, 0.5, 1 and
  the AUC 0.75, under every schedule of the kernels: the four points are handled by one
  warp, and the three areas 0.25, 0 and 0.5 are added by one block, exactly in every order.
\<close>

theorem example_auc_three_quarters:
  "example_run = Some example_state
   \<and> (\<exists>auc s'. AUC_finalize_metric sch example_state = Some (auc, s')
     \<and> d_num_selected_out s' = 4
     \<and> take 4 (tpr s') = [Fin (1 / 2), Fin (1 / 2), Fin 1, Fin 1]
     \<and> take 4 (fpr s') = [Fin 0, Fin (1 / 2), Fin (1 / 2), Fin 1]
     \<and> auc = Fin (3 / 4))"
  using example_run_eq example_finalized [of sch] example_finalized_rates [of sch]
    example_auc [of sch]
  by simp

section \<open>The integral and the reset\<close>

text \<open>
  C4, as the code has it: the scalar that finalize returns is a sum in single precision of
  the terms \<open>(FPR[i + 1] - FPR[i]) * (TPR[i] + TPR[i + 1]) / 2\<close> of the pairs of consecutive
  compacted points, where the term of the first pair also holds the triangle
  \<open>FPR[0] * TPR[0] / 2\<close>. Every block of 1024 threads adds the terms of its pairs to zero, in
  the order of its atomic additions, and the sums of the 160 blocks are added to the zero of
  \<^verbatim>\<open>initialize_array\<close>, in the order of theirs; every pair is added by exactly one block,
  exactly once. With a single compacted point there is no pair, the triangle is not added
  and the result is zero.
\<close>

theorem finalize_trapezoid_sum:
  assumes "pid s = 0" and "int n = offset s * num_procs s" and "0 < n" and "capacity_ok s n"
  shows "\<exists>auc s' k. AUC_finalize_metric sch s = Some (auc, s')
      \<and> d_auc s' = auc \<and> d_num_selected_out s' = int k \<and> 1 \<le> k
      \<and> auc = foldl fadd (Fin 0)
                (map (\<lambda>b. foldl fadd (Fin 0)
                             (map (trapezoid_term (fpr s') (tpr s')) (block_adds sch k b)))
                   (block_order sch))
      \<and> (\<forall>i. trapezoid_term (fpr s') (tpr s') i =
             (if i = 0
              then fadd (fdiv (fmul (fsub (fpr s' ! 1) (fpr s' ! 0))
                                 (fadd (tpr s' ! 0) (tpr s' ! 1))) (Fin 2))
                     (fdiv (fmul (fpr s' ! 0) (tpr s' ! 0)) (Fin 2))
              else fdiv (fmul (fsub (fpr s' ! (i + 1)) (fpr s' ! i))
                           (fadd (tpr s' ! i) (tpr s' ! (i + 1)))) (Fin 2)))
      \<and> distinct (block_order sch) \<and> set (block_order sch) = {0..<grid_dim}
      \<and> (\<forall>b. distinct (block_adds sch k b)
             \<and> set (block_adds sch k b) = {i. i < k - 1 \<and> block_of i = b})
      \<and> (\<forall>i. block_of i < grid_dim)
      \<and> (k = 1 \<longrightarrow> auc = Fin 0)"
proof -
  define ps where "ps = sorted_preds s n"
  define ls where "ls = sorted_labels s n"
  define k where "k = length (roc_points ps)"
  define x where "x = fpr (finalized sch s n)"
  define y where "y = tpr (finalized sch s n)"
  have len: "length ps = n" using length_sorted [OF assms(4)] by (simp add: ps_def)
  with assms(3) have ne: "ps \<noteq> []" by auto
  have kpos: "1 \<le> k"
    using roc_points_props(1) [OF ne] by (cases "roc_points ps") (simp_all add: k_def)
  have fin: "AUC_finalize_metric sch s = Some (roc_auc sch ps ls, finalized sch s n)"
    using finalize_finalized [OF assms] by (simp add: ps_def ls_def)
  have f: "x = sched_fpr sch ps ls @ drop k (fpr s)" "y = sched_tpr sch ps ls @ drop k (tpr s)"
    "d_num_selected_out (finalized sch s n) = int k" "d_auc (finalized sch s n) = roc_auc sch ps ls"
    by (simp_all add: finalized_def Let_def ps_def ls_def k_def x_def y_def)
  have bs: "block_sum sch (sched_fpr sch ps ls) (sched_tpr sch ps ls) k b
      = foldl fadd (Fin 0) (map (trapezoid_term x y) (block_adds sch k b))" for b
    unfolding block_sum_def f
    by (intro arg_cong [where f = "foldl fadd (Fin 0)"] map_cong refl
        trapezoid_term_append [symmetric])
      (auto simp: set_block_adds length_sched_rates k_def)
  have a: "roc_auc sch ps ls = foldl fadd (Fin 0)
      (map (\<lambda>b. foldl fadd (Fin 0) (map (trapezoid_term x y) (block_adds sch k b)))
         (block_order sch))"
    unfolding roc_auc_def trapezoid_sum_def k_def [symmetric]
    by (intro arg_cong [where f = "foldl fadd (Fin 0)"] map_cong refl bs)
  have t: "trapezoid_term x y i =
      (if i = 0
       then fadd (fdiv (fmul (fsub (x ! 1) (x ! 0)) (fadd (y ! 0) (y ! 1))) (Fin 2))
              (fdiv (fmul (x ! 0) (y ! 0)) (Fin 2))
       else fdiv (fmul (fsub (x ! (i + 1)) (x ! i)) (fadd (y ! i) (y ! (i + 1)))) (Fin 2))" for i
    by (simp add: trapezoid_term_def segment_area_def origin_triangle_def)
  have one: "roc_auc sch ps ls = Fin 0" if "k = 1"
    using that by (simp add: roc_auc_def k_def [symmetric] trapezoid_sum_single)
  show ?thesis
    unfolding fin
    using f(3,4) kpos a t one set_block_order [of sch] distinct_block_adds [of sch k]
      set_block_adds [of sch k] block_of_less
    unfolding x_def y_def
    by (intro exI [of _ "roc_auc sch ps ls"] exI [of _ "finalized sch s n"] exI [of _ k]) simp
qed

theorem finalize_trapezoid_sum_witness:
  "pid example_state = 0 \<and> int 4 = offset example_state * num_procs example_state \<and> (0::nat) < 4
   \<and> capacity_ok example_state 4
   \<and> (\<exists>auc s'. AUC_finalize_metric in_order example_state = Some (auc, s')
        \<and> d_num_selected_out s' = 4
        \<and> auc = foldl fadd (Fin 0)
                  (map (\<lambda>b. foldl fadd (Fin 0)
                               (map (trapezoid_term (fpr s') (tpr s')) (block_adds in_order 4 b)))
                     (block_order in_order)))"
proof -
  have h: "pid example_state = 0" "int 4 = offset example_state * num_procs example_state"
    "(0::nat) < 4" "capacity_ok example_state 4"
    by (simp_all add: example_state_fields example_capacity)
  from finalize_trapezoid_sum [OF h, of in_order]
  obtain auc s' k where r: "AUC_finalize_metric in_order example_state = Some (auc, s')"
    "d_num_selected_out s' = int k"
    "auc = foldl fadd (Fin 0)
       (map (\<lambda>b. foldl fadd (Fin 0)
                    (map (trapezoid_term (fpr s') (tpr s')) (block_adds in_order k b)))
          (block_order in_order))"
    by blast
  from r(1) have "s' = finalized in_order example_state 4" by (simp add: example_finalized)
  with r(2) have "k = 4" by (simp add: example_finalized_rates)
  with r h show ?thesis by simp
qed

lemma tied_fields:
  "pid tied_state = 0" "offset tied_state = 2" "num_procs tied_state = 1"
  "d_pred tied_state = [Fin (1 / 2), Fin (1 / 2)]" "d_label tied_state = [Fin 1, Fin 0]"
  "capacity_ok tied_state 2"
  by (simp_all add: tied_state_def AUC_init_def capacity_ok_def rnd32_halves)

lemma upt_2: "[0..<2] = [0, 1]"
  by (simp add: upt_rec [of 0] upt_rec [of 1] upt_rec [of "Suc 0"] numeral_eq_Suc)

lemma tied_sorted:
  "sorted_preds tied_state 2 = [Fin (1 / 2), Fin (1 / 2)]"
  "sorted_labels tied_state 2 = [Fin 1, Fin 0]"
  by (simp_all add: sorted_preds_def sorted_labels_def tied_fields sort_desc_def key_less_def)

lemma tied_state_points: "roc_points [Fin (1 / 2), Fin (1 / 2)] = [1]"
proof -
  have "flags_of [Fin (1 / 2), Fin (1 / 2)] 2 = [0, 1]"
    by (simp add: flags_of_def flag_at_def fsub_Fin rnd32_0 not_fgt_zero_eps)
  moreover have "length [Fin (1 / 2), Fin (1 / 2)] = 2" by simp
  ultimately show ?thesis by (simp only: roc_points_def) (simp add: flagged_idx_def upt_2)
qed

lemma tied_rates:
  "sched_tpr sch [Fin (1 / 2), Fin (1 / 2)] [Fin 1, Fin 0] = [Fin 1]"
  "sched_fpr sch [Fin (1 / 2), Fin (1 / 2)] [Fin 1, Fin 0] = [Fin 1]"
proof -
  have i: "in_time sch (length (roc_points [Fin (1 / 2), Fin (1 / 2)]))"
    by (rule in_time_small) (simp add: tied_state_points warp_size_def)
  have c: "cum_labels [Fin 1, Fin 0] = [Fin 1, Fin 1]"
    by (simp add: cum_labels_def rnd32_small)
  have t: "total_pos [Fin 1, Fin 0] = Fin 1" "total_neg [Fin 1, Fin 0] = Fin 1"
    by (simp_all add: total_pos_def total_neg_def c f32_of_int_small fsub_Fin rnd32_small)
  show "sched_tpr sch [Fin (1 / 2), Fin (1 / 2)] [Fin 1, Fin 0] = [Fin 1]"
    unfolding sched_rates_in_time [OF i]
    by (simp add: roc_tpr_def tied_state_points c t rnd32_small)
  show "sched_fpr sch [Fin (1 / 2), Fin (1 / 2)] [Fin 1, Fin 0] = [Fin 1]"
    unfolding sched_rates_in_time [OF i]
    by (simp add: roc_fpr_def tied_state_points c t rnd32_small f32_of_int_small fsub_Fin)
qed

text \<open>
  Against C4 as it is stated: two samples with the same prediction, one positive and one
  negative, give the single compacted point \<open>(1, 1)\<close>. The sum over the pairs is empty and the
  triangle between the origin and the point has the area 0.5, but finalize returns 0.
\<close>

theorem finalize_trapezoid_sum_counterexample:
  "map_option (d_num_selected_out \<circ> snd) (AUC_finalize_metric in_order tied_state) = Some 1
   \<and> map_option (take 1 \<circ> fpr \<circ> snd) (AUC_finalize_metric in_order tied_state) = Some [Fin 1]
   \<and> map_option (take 1 \<circ> tpr \<circ> snd) (AUC_finalize_metric in_order tied_state) = Some [Fin 1]
   \<and> fadd (Fin 0) (origin_triangle [Fin 1] [Fin 1]) = Fin (1 / 2)
   \<and> map_option fst (AUC_finalize_metric in_order tied_state) = Some (Fin 0)"
proof -
  have fin: "AUC_finalize_metric in_order tied_state =
      Some (roc_auc in_order (sorted_preds tied_state 2) (sorted_labels tied_state 2),
            finalized in_order tied_state 2)"
    by (rule finalize_finalized) (simp_all add: tied_fields)
  have auc: "roc_auc in_order [Fin (1 / 2), Fin (1 / 2)] [Fin 1, Fin 0] = Fin 0"
    by (simp add: roc_auc_def tied_state_points trapezoid_sum_single)
  have "d_num_selected_out (finalized in_order tied_state 2) = 1"
    "take 1 (tpr (finalized in_order tied_state 2)) = [Fin 1]"
    "take 1 (fpr (finalized in_order tied_state 2)) = [Fin 1]"
    by (simp_all add: finalized_def Let_def tied_sorted tied_state_points tied_rates)
  moreover have "fadd (Fin 0) (origin_triangle [Fin 1] [Fin 1]) = Fin (1 / 2)"
    by (simp add: origin_triangle_def rnd32_small rnd32_halves)
  ultimately show ?thesis using fin auc by (simp add: tied_sorted)
qed

text \<open>
  C8, as the code has it: every finalize call resets the offset to zero. The call contains
  no write that clears an array.
\<close>

theorem finalize_resets_offset:
  assumes "int n = offset s * num_procs s" and "0 < n" and "capacity_ok s n"
  shows "\<exists>auc s'. AUC_finalize_metric sch s = Some (auc, s') \<and> offset s' = 0"
proof (cases "pid s = 0")
  case True
  from finalize_finalized [OF True assms] show ?thesis by (simp add: finalized_fields)
next
  case False
  then show ?thesis by (simp add: AUC_finalize_metric_def)
qed

theorem finalize_resets_offset_witness:
  "int 4 = offset example_state * num_procs example_state \<and> (0::nat) < 4
   \<and> capacity_ok example_state 4 \<and> offset example_state = 4
   \<and> (\<exists>auc s'. AUC_finalize_metric in_order example_state = Some (auc, s') \<and> offset s' = 0)"
proof -
  have h: "int 4 = offset example_state * num_procs example_state" "(0::nat) < 4"
    "capacity_ok example_state 4"
    by (simp_all add: example_state_fields example_capacity)
  from finalize_resets_offset [OF h, of in_order] h show ?thesis
    by (simp add: example_state_fields)
qed

lemma example_finalized_arrays:
  "d_pred (finalized sch example_state 4) = example_pred"
  "d_label (finalized sch example_state 4) = example_label"
  "d_pred_sort (finalized sch example_state 4) = example_pred"
  "d_label_sort (finalized sch example_state 4) = example_label"
  "d_inc_sum (finalized sch example_state 4) = [Fin 1, Fin 1, Fin 2, Fin 2]"
  "tpr (finalized sch example_state 4) = [Fin (1 / 2), Fin (1 / 2), Fin 1, Fin 1]"
  "fpr (finalized sch example_state 4) = [Fin 0, Fin (1 / 2), Fin (1 / 2), Fin 1]"
  "d_flag_inc_sum (finalized sch example_state 4) = [1, 2, 3, 4]"
  "d_unique_index (finalized sch example_state 4) = [0, 1, 2, 3]"
  by (simp_all add: finalized_def Let_def example_sorted_fields example_state_fields
      example_points example_sched_rates example_cum example_flags)

text \<open>
  Against C8 as it is stated: after the finalize of the example the offset is zero, and the
  arrays of the predictions, the labels, the sorted predictions and the sorted labels still
  hold the samples of the pass. No array that the call has written is cleared either, so
  none of the buffers is, whichever arrays share it.
\<close>

theorem finalize_clears_buffers_counterexample:
  "map_option (offset \<circ> snd) (AUC_finalize_metric in_order example_state) = Some 0
   \<and> map_option (cleared \<circ> d_pred \<circ> snd) (AUC_finalize_metric in_order example_state) = Some False
   \<and> map_option (cleared \<circ> d_label \<circ> snd) (AUC_finalize_metric in_order example_state) = Some False
   \<and> map_option (cleared \<circ> d_pred_sort \<circ> snd) (AUC_finalize_metric in_order example_state)
       = Some False
   \<and> map_option (cleared \<circ> d_label_sort \<circ> snd) (AUC_finalize_metric in_order example_state)
       = Some False
   \<and> map_option (cleared \<circ> d_inc_sum \<circ> snd) (AUC_finalize_metric in_order example_state)
       = Some False
   \<and> map_option (cleared \<circ> tpr \<circ> snd) (AUC_finalize_metric in_order example_state) = Some False
   \<and> map_option (cleared \<circ> fpr \<circ> snd) (AUC_finalize_metric in_order example_state) = Some False
   \<and> map_option (cleared_int \<circ> d_flag_inc_sum \<circ> snd) (AUC_finalize_metric in_order example_state)
       = Some False
   \<and> map_option (cleared_int \<circ> d_unique_index \<circ> snd) (AUC_finalize_metric in_order example_state)
       = Some False"
  by (simp add: example_finalized example_finalized_arrays finalized_fields cleared_def
      cleared_int_def example_pred_values example_label_def)

section \<open>Exact counts in single precision\<close>

lemma rnd32_of_nat: "a \<le> 2 ^ 24 \<Longrightarrow> rnd32 (of_nat a) = Fin (of_nat a)"
  using rnd32_of_int [of "int a"] by simp

lemma ones_le_length: "ones xs \<le> length xs"
  by (simp add: ones_def)

lemma ones_Cons: "ones (x # xs) = (if x = Fin 1 then 1 else 0) + ones xs"
  by (simp add: ones_def)

lemma ones_append: "ones (xs @ ys) = ones xs + ones ys"
  by (simp add: ones_def)

text \<open>
  A sum of labels 0 and 1 from left to right is exact as long as the number of the labels 1
  is at most \<open>2\<^sup>2\<^sup>4\<close>.
\<close>

lemma foldl_fadd_count:
  assumes "binary_labels xs" and "a + ones xs \<le> 2 ^ 24"
  shows "foldl fadd (Fin (of_nat a)) xs = Fin (of_nat (a + ones xs))"
  using assms
proof (induction xs arbitrary: a)
  case Nil
  then show ?case by (simp add: ones_def)
next
  case (Cons x xs)
  from Cons.prems(1) have x: "x = Fin 0 \<or> x = Fin 1" and b: "binary_labels xs"
    by (simp_all add: binary_labels_def)
  from x show ?case
  proof
    assume x0: "x = Fin 0"
    have "fadd (Fin (of_nat a)) x = Fin (of_nat a)"
      using Cons.prems(2) by (simp add: x0 rnd32_of_nat)
    moreover have "a + ones xs \<le> 2 ^ 24" using Cons.prems(2) by (simp add: ones_Cons x0)
    ultimately show ?thesis using Cons.IH [OF b, of a] by (simp add: ones_Cons x0)
  next
    assume x1: "x = Fin 1"
    have "fadd (Fin (of_nat a)) x = rnd32 (of_nat (Suc a))" by (simp add: x1 add.commute)
    also have "\<dots> = Fin (of_nat (Suc a))"
      using Cons.prems(2) by (intro rnd32_of_nat) (simp add: ones_Cons x1)
    finally have s: "fadd (Fin (of_nat a)) x = Fin (of_nat (Suc a))" .
    have "Suc a + ones xs \<le> 2 ^ 24" using Cons.prems(2) by (simp add: ones_Cons x1)
    from Cons.IH [OF b this] s show ?thesis by (simp add: ones_Cons x1)
  qed
qed

lemma ones_take_le: "ones (take i ls) \<le> ones ls"
proof -
  have "ones ls = ones (take i ls) + ones (drop i ls)"
    using ones_append [of "take i ls" "drop i ls"] by simp
  then show ?thesis by simp
qed

lemma cum_labels_nth:
  assumes "binary_labels ls" and "ones ls \<le> 2 ^ 24" and "i < length ls"
  shows "cum_labels ls ! i = Fin (of_nat (ones (take (Suc i) ls)))"
proof (cases ls)
  case Nil
  with assms(3) show ?thesis by simp
next
  case (Cons x xs)
  from assms(1) Cons have x: "x = Fin 0 \<or> x = Fin 1" and b: "binary_labels xs"
    by (simp_all add: binary_labels_def)
  define a :: nat where "a = (if x = Fin 1 then 1 else 0)"
  from x have xa: "x = Fin (of_nat a)" by (auto simp: a_def)
  show ?thesis
  proof (cases i)
    case 0
    with Cons x show ?thesis by (auto simp: cum_labels_def ones_def)
  next
    case (Suc j)
    with assms(3) Cons have j: "j < length xs" by simp
    have bt: "binary_labels (take (Suc j) xs)"
      using b by (auto simp: binary_labels_def list_all_iff dest: in_set_takeD)
    have "a + ones (take (Suc j) xs) = ones (take (Suc (Suc j)) ls)"
      by (simp add: Cons ones_Cons a_def)
    then have "a + ones (take (Suc j) xs) \<le> 2 ^ 24"
      using ones_take_le [of "Suc (Suc j)" ls] assms(2) by simp
    from foldl_fadd_count [OF bt this]
    have "foldl fadd x (take (Suc j) xs) = Fin (of_nat (a + ones (take (Suc j) xs)))"
      by (simp add: xa [symmetric])
    then show ?thesis
      using j by (simp add: Cons Suc cum_labels_def scan_from_nth ones_Cons a_def)
  qed
qed

lemma ones_take_mono: "i \<le> j \<Longrightarrow> ones (take i ls) \<le> ones (take j ls)"
proof -
  assume "i \<le> j"
  then have "take j ls = take i ls @ take (j - i) (drop i ls)"
    by (metis le_add_diff_inverse take_add)
  then show ?thesis by (simp add: ones_append)
qed

lemma zeros_take_mono:
  assumes "i \<le> j"
  shows "i - ones (take i ls) \<le> j - ones (take j ls)"
proof -
  from assms have t: "take j ls = take i ls @ take (j - i) (drop i ls)"
    by (metis le_add_diff_inverse take_add)
  have "ones (take (j - i) (drop i ls)) \<le> j - i"
    using ones_le_length [of "take (j - i) (drop i ls)"] by simp
  moreover have "ones (take i ls) \<le> i" using ones_le_length [of "take i ls"] by simp
  ultimately show ?thesis using assms by (simp add: t ones_append)
qed

lemma nondecreasing_map:
  assumes "sorted idx" and "\<And>i j. i \<in> set idx \<Longrightarrow> j \<in> set idx \<Longrightarrow> i \<le> j \<Longrightarrow> fle (g i) (g j)"
  shows "nondecreasing (map g idx)"
  using assms
proof (induction idx rule: induct_list012)
  case (3 x y zs)
  then show ?case by simp
qed simp_all

section \<open>Monotone rates\<close>

lemma roc_points_less: "ps \<noteq> [] \<Longrightarrow> i \<in> set (roc_points ps) \<Longrightarrow> i < length ps"
  using roc_points_props(5) [of ps] by simp

lemma set_sorted_labels:
  assumes "capacity_ok s n"
  shows "set (sorted_labels s n) = set (take n (d_label s))"
proof -
  have l: "length (take n (d_pred s)) = length (take n (d_label s))"
    using assms by (simp add: capacity_ok_def)
  have "set (sorted_labels s n) = snd ` set (zip (take n (d_pred s)) (take n (d_label s)))"
    by (simp add: sorted_labels_def set_sort_desc)
  also have "\<dots> = set (map snd (zip (take n (d_pred s)) (take n (d_label s))))" by simp
  also have "\<dots> = set (take n (d_label s))" using l by (simp only: map_snd_zip)
  finally show ?thesis .
qed

lemma ones_pos: "Fin 1 \<in> set ls \<Longrightarrow> 0 < ones ls"
  by (simp add: ones_def filter_empty_conv)

lemma ones_less: "Fin 0 \<in> set ls \<Longrightarrow> ones ls < length ls"
proof -
  assume "Fin 0 \<in> set ls"
  then show ?thesis unfolding ones_def by (rule length_filter_less) simp
qed

lemma binary_totals:
  assumes "binary_labels ls" and "0 < length ls" and "length ls \<le> 2 ^ 24"
  shows "total_pos ls = Fin (of_nat (ones ls))"
    and "total_neg ls = Fin (of_nat (length ls - ones ls))"
proof -
  have o24: "ones ls \<le> 2 ^ 24" using ones_le_length [of ls] assms(3) by simp
  have "total_pos ls = Fin (of_nat (ones (take (Suc (length ls - 1)) ls)))"
    unfolding total_pos_def using assms o24 by (intro cum_labels_nth) simp_all
  then show p: "total_pos ls = Fin (of_nat (ones ls))" using assms(2) by simp
  have le: "ones ls \<le> length ls" by (rule ones_le_length)
  have "f32_of_int (int (length ls)) = Fin (of_nat (length ls))"
    using rnd32_of_nat [OF assms(3)] by (simp add: f32_of_int_def)
  then have "total_neg ls = rnd32 (of_nat (length ls) - of_nat (ones ls))"
    by (simp add: total_neg_def p fsub_Fin)
  also have "(of_nat (length ls) - of_nat (ones ls) :: rat) = of_nat (length ls - ones ls)"
    using le by (simp add: of_nat_diff)
  also have "rnd32 (of_nat (length ls - ones ls)) = Fin (of_nat (length ls - ones ls))"
    using assms(3) by (intro rnd32_of_nat) simp
  finally show "total_neg ls = Fin (of_nat (length ls - ones ls))" .
qed

lemma binary_numerator:
  assumes "binary_labels ls" and "length ls \<le> 2 ^ 24" and "i < length ls"
  shows "fsub (fadd (Fin 1) (f32_of_int (int i))) (cum_labels ls ! i) =
           Fin (of_nat (Suc i - ones (take (Suc i) ls)))"
proof -
  define c where "c = ones (take (Suc i) ls)"
  have c: "c \<le> Suc i" unfolding c_def using ones_le_length [of "take (Suc i) ls"] by simp
  have o24: "ones ls \<le> 2 ^ 24" using ones_le_length [of ls] assms(2) by simp
  have i24: "i \<le> 2 ^ 24" "Suc i \<le> 2 ^ 24" "Suc i - c \<le> 2 ^ 24"
    using assms(2,3) by simp_all
  have "f32_of_int (int i) = Fin (of_nat i)"
    using rnd32_of_nat [OF i24(1)] by (simp add: f32_of_int_def)
  then have "fadd (Fin 1) (f32_of_int (int i)) = rnd32 (of_nat (Suc i))"
    by (simp add: add.commute)
  also have "\<dots> = Fin (of_nat (Suc i))" using i24(2) by (rule rnd32_of_nat)
  finally have "fsub (fadd (Fin 1) (f32_of_int (int i))) (cum_labels ls ! i) =
      rnd32 (of_nat (Suc i) - of_nat c)"
    using cum_labels_nth [OF assms(1) o24 assms(3)] by (simp add: c_def fsub_Fin)
  also have "(of_nat (Suc i) - of_nat c :: rat) = of_nat (Suc i - c)"
    using c by (simp only: of_nat_diff)
  also have "rnd32 (of_nat (Suc i - c)) = Fin (of_nat (Suc i - c))"
    using i24(3) by (rule rnd32_of_nat)
  finally show ?thesis by (simp add: c_def)
qed

lemma binary_rates_nondecreasing:
  assumes "binary_labels ls" and "length ls = length ps" and "length ls \<le> 2 ^ 24"
    and "0 < ones ls" and "ones ls < length ls"
  shows "nondecreasing (roc_tpr ps ls)" and "nondecreasing (roc_fpr ps ls)"
proof -
  from assms(5) have pos: "0 < length ls" by (cases ls) simp_all
  with assms(2) have ne: "ps \<noteq> []" by auto
  note tot = binary_totals [OF assms(1) pos assms(3)]
  have o24: "ones ls \<le> 2 ^ 24" using ones_le_length [of ls] assms(3) by simp
  have srt: "sorted (roc_points ps)" by (rule roc_points_props(3) [OF ne])
  have lt: "i < length ls" if "i \<in> set (roc_points ps)" for i
    using roc_points_less [OF ne that] assms(2) by simp
  define P :: rat where "P = of_nat (ones ls)"
  define N :: rat where "N = of_nat (length ls - ones ls)"
  have P: "0 < P" and N: "0 < N" using assms(4,5) by (simp_all add: P_def N_def)
  show "nondecreasing (roc_tpr ps ls)"
    unfolding roc_tpr_def
  proof (rule nondecreasing_map [OF srt])
    fix i j assume ij: "i \<in> set (roc_points ps)" "j \<in> set (roc_points ps)" "i \<le> j"
    have ci: "cum_labels ls ! i = Fin (of_nat (ones (take (Suc i) ls)))"
      and cj: "cum_labels ls ! j = Fin (of_nat (ones (take (Suc j) ls)))"
      using lt ij(1,2) by (auto intro: cum_labels_nth [OF assms(1) o24])
    have m: "ones (take (Suc i) ls) \<le> ones (take (Suc j) ls)"
      using ij(3) by (intro ones_take_mono) simp
    have "(of_nat (ones (take (Suc i) ls)) :: rat) / P \<le> of_nat (ones (take (Suc j) ls)) / P"
      using m P by (simp add: divide_right_mono)
    moreover have "0 \<le> (of_nat (ones (take (Suc i) ls)) :: rat) / P" using P by simp
    ultimately have "fle (rnd32 (of_nat (ones (take (Suc i) ls)) / P))
        (rnd32 (of_nat (ones (take (Suc j) ls)) / P))"
      by (intro rnd32_mono)
    then show "fle (fdiv (cum_labels ls ! i) (total_pos ls)) (fdiv (cum_labels ls ! j) (total_pos ls))"
      using P by (simp add: ci cj tot P_def)
  qed
  show "nondecreasing (roc_fpr ps ls)"
    unfolding roc_fpr_def
  proof (rule nondecreasing_map [OF srt])
    fix i j assume ij: "i \<in> set (roc_points ps)" "j \<in> set (roc_points ps)" "i \<le> j"
    have ni: "fsub (fadd (Fin 1) (f32_of_int (int i))) (cum_labels ls ! i) =
        Fin (of_nat (Suc i - ones (take (Suc i) ls)))"
      and nj: "fsub (fadd (Fin 1) (f32_of_int (int j))) (cum_labels ls ! j) =
        Fin (of_nat (Suc j - ones (take (Suc j) ls)))"
      using lt ij(1,2) by (auto intro: binary_numerator [OF assms(1,3)])
    have m: "Suc i - ones (take (Suc i) ls) \<le> Suc j - ones (take (Suc j) ls)"
      using ij(3) by (intro zeros_take_mono) simp
    have "(of_nat (Suc i - ones (take (Suc i) ls)) :: rat) / N
        \<le> of_nat (Suc j - ones (take (Suc j) ls)) / N"
      using m N by (simp add: divide_right_mono)
    moreover have "0 \<le> (of_nat (Suc i - ones (take (Suc i) ls)) :: rat) / N" using N by simp
    ultimately have "fle (rnd32 (of_nat (Suc i - ones (take (Suc i) ls)) / N))
        (rnd32 (of_nat (Suc j - ones (take (Suc j) ls)) / N))"
      by (intro rnd32_mono)
    then show "fle (fdiv (fsub (fadd (Fin 1) (f32_of_int (int i))) (cum_labels ls ! i)) (total_neg ls))
        (fdiv (fsub (fadd (Fin 1) (f32_of_int (int j))) (cum_labels ls ! j)) (total_neg ls))"
      using N by (simp add: ni nj tot N_def)
  qed
qed

lemma nondecreasing_nth:
  assumes "nondecreasing xs" and "Suc i < length xs"
  shows "fle (xs ! i) (xs ! Suc i)"
  using assms
proof (induction xs arbitrary: i rule: induct_list012)
  case (3 x y zs)
  then show ?case by (cases i) simp_all
qed simp_all

lemma rhe_tie_even: "even m \<Longrightarrow> rhe (of_int m + 1 / 2) = m"
proof -
  assume m: "even m"
  have f: "\<lfloor>(of_int m + 1 / 2 :: rat)\<rfloor> = m" by (intro floor_unique) simp_all
  show ?thesis using m by (simp add: rhe_def Let_def f)
qed

lemma rnd32_eval_tie:
  assumes "0 \<le> q" and "- 126 \<le> e" and "q < pow2 (e + 1)" and "e = - 126 \<or> pow2 e \<le> q"
    and "q / pow2 (e - 23) = of_int m + 1 / 2" and "even m"
    and "of_int m * pow2 (e - 23) < 2 ^ 128"
  shows "rnd32 q = Fin (of_int m * pow2 (e - 23))"
proof -
  have "expo q = e" using assms(2,3,4) by (rule expo_unique)
  then have "rnd_mag q = of_int (rhe (q / pow2 (e - 23))) * pow2 (e - 23)"
    by (rule rnd_mag_expo)
  also have "rhe (q / pow2 (e - 23)) = m" unfolding assms(5) using assms(6) by (rule rhe_tie_even)
  finally show ?thesis using assms(1,7) by (simp add: rnd32_def)
qed

lemma rnd32_above_2_24:
  "rnd32 16777217 = Fin 16777216" "rnd32 16777218 = Fin 16777218"
  "rnd32 (16777215 / 16777216) = Fin (16777215 / 16777216)"
  "rnd32 (16777216 / 16777215) = Fin (8388609 / 8388608)"
  using rnd32_eval_tie [of 16777217 24 8388608] rnd32_eval [of 16777218 24 8388609]
    rnd32_dyadic [of 16777215 24] rnd32_eval [of "16777216 / 16777215" 0 8388609]
  by (simp_all add: pow2_def)

lemma fdiv_self: "nonzero x \<Longrightarrow> fdiv x x = Fin 1"
  by (cases x) (simp_all add: rnd32_1)

section \<open>Sorted inputs\<close>

lemma insert_desc_head:
  "\<forall>q \<in> set qs. \<not> key_less (fst p) (fst q) \<Longrightarrow> insert_desc p qs = p # qs"
  by (cases qs) simp_all

lemma sort_desc_sorted:
  assumes "sorted_wrt (\<lambda>p q. \<not> key_less (fst p) (fst q)) zs"
  shows "sort_desc zs = zs"
  using assms by (induction zs) (simp_all add: sort_desc_def insert_desc_head)

lemma sorted_state:
  assumes "d_pred s = ps" and "d_label s = ls" and "length ps = n" and "length ls = n"
    and "\<forall>i j. i < j \<and> j < n \<longrightarrow> \<not> key_less (ps ! i) (ps ! j)"
  shows "sorted_preds s n = ps" and "sorted_labels s n = ls"
proof -
  have "sorted_wrt (\<lambda>p q. \<not> key_less (fst p) (fst q)) (zip ps ls)"
    using assms(3,4,5) by (simp add: sorted_wrt_iff_nth_less)
  then have s: "sort_desc (zip ps ls) = zip ps ls" by (rule sort_desc_sorted)
  have l: "length ps = length ls" using assms(3,4) by simp
  show "sorted_preds s n = ps"
    unfolding sorted_preds_def assms(1,2) using assms(3,4) l by (simp add: s)
  show "sorted_labels s n = ls"
    unfolding sorted_labels_def assms(1,2) using assms(3,4) l by (simp add: s)
qed

lemma roc_points_all:
  assumes "ps \<noteq> []" and "\<forall>j. j + 1 < length ps \<longrightarrow> fgt (fsub (ps ! j) (ps ! (j + 1))) eps"
  shows "roc_points ps = [0..<length ps]"
proof -
  have "j + 1 < length ps" if "j < length ps" "j \<noteq> length ps - 1" for j
    using that by arith
  with assms(2) have "fgt (fsub (ps ! j) (ps ! (j + 1))) eps"
    if "j < length ps" "j \<noteq> length ps - 1" for j
    using that by blast
  then have "(j < length ps \<and> (j = length ps - 1 \<or> fgt (fsub (ps ! j) (ps ! (j + 1))) eps))
      \<longleftrightarrow> j < length ps" for j
    by blast
  then have "set (roc_points ps) = set [0..<length ps]"
    unfolding roc_points_props(5) [OF assms(1)] by (simp add: atLeast0LessThan lessThan_def)
  then show ?thesis
    using roc_points_props(3,4) [OF assms(1)] by (intro sorted_distinct_set_unique) simp_all
qed

lemma roc_points_two_runs:
  assumes "0 < m" and "fgt (fsub p q) eps" and "\<not> fgt (fsub p p) eps"
  shows "roc_points (replicate m p @ [q]) = [m - 1, m]"
proof -
  let ?ps = "replicate m p @ [q]"
  have ne: "?ps \<noteq> []" by simp
  have f: "fgt (fsub (?ps ! j) (?ps ! (j + 1))) eps \<longleftrightarrow> j = m - 1" if "j < m" for j
  proof (cases "j = m - 1")
    case True
    with assms(1,2) show ?thesis by (simp add: nth_append)
  next
    case False
    with that have "Suc j < m" by arith
    with that False assms(3) show ?thesis by (simp add: nth_append)
  qed
  have "(j < length ?ps \<and> (j = length ?ps - 1 \<or> fgt (fsub (?ps ! j) (?ps ! (j + 1))) eps))
      \<longleftrightarrow> j = m - 1 \<or> j = m" for j
  proof (cases "j < m")
    case True
    with f [OF True] show ?thesis by simp
  next
    case False
    then show ?thesis by auto
  qed
  then have "set (roc_points ?ps) = set [m - 1, m]"
    unfolding roc_points_props(5) [OF ne] by auto
  moreover have "sorted [m - 1, m]" "distinct [m - 1, m]" using assms(1) by simp_all
  ultimately show ?thesis
    using roc_points_props(3,4) [OF ne] by (intro sorted_distinct_set_unique) simp_all
qed

section \<open>A late read of the total of the positives\<close>

lemma race_lengths: "length race_pred = race_n" "length race_label = race_n"
  by (simp_all add: race_pred_def race_label_def race_n_def)

lemma race_fields:
  "pid race_state = 0" "offset race_state = int race_n" "num_procs race_state = 1"
  "d_pred race_state = race_pred" "d_label race_state = race_label"
  "capacity_ok race_state race_n"
  by (simp_all add: race_state_def AUC_init_def capacity_ok_def race_lengths)

lemma race_pred_nth: "i < race_n \<Longrightarrow> race_pred ! i = Fin (of_nat (64 - i) / 64)"
  by (simp add: race_pred_def)

lemma race_sorted:
  "sorted_preds race_state race_n = race_pred" "sorted_labels race_state race_n = race_label"
proof -
  have "\<forall>i j. i < j \<and> j < race_n \<longrightarrow> \<not> key_less (race_pred ! i) (race_pred ! j)"
    by (auto simp: race_pred_nth key_less_def)
  from sorted_state [OF race_fields(4,5) race_lengths this]
  show "sorted_preds race_state race_n = race_pred"
    "sorted_labels race_state race_n = race_label" .
qed

lemma race_points: "roc_points race_pred = [0..<race_n]"
proof -
  have ne: "race_pred \<noteq> []" using race_lengths(1) by (auto simp: race_n_def)
  have "fgt (fsub (race_pred ! j) (race_pred ! (j + 1))) eps" if "j + 1 < race_n" for j
  proof -
    define c where "c = 64 - Suc j"
    from that have j: "j < race_n" "64 - j = Suc c" "64 - (j + 1) = c"
      by (simp_all add: race_n_def c_def)
    have "fsub (race_pred ! j) (race_pred ! (j + 1)) = rnd32 (1 / 64)"
      unfolding race_pred_nth [OF j(1)] race_pred_nth [OF that] j(2,3)
      by (simp add: fsub_Fin add_divide_distrib)
    then show ?thesis by (simp add: fgt_rnd32_eps)
  qed
  then show ?thesis
    using roc_points_all [OF ne] by (simp add: race_lengths)
qed

lemma race_binary: "binary_labels race_label" "ones race_label = 2"
  by (simp_all add: binary_labels_def race_label_def ones_def list_all_iff)

lemma race_cum:
  assumes "i < race_n"
  shows "cum_labels race_label ! i = (if i = 0 then Fin 1 else Fin 2)"
proof -
  have "cum_labels race_label ! i = Fin (of_nat (ones (take (Suc i) race_label)))"
    using assms by (intro cum_labels_nth) (simp_all add: race_binary race_lengths)
  moreover have "ones (take (Suc i) race_label) = (if i = 0 then 1 else 2)"
    by (cases i) (simp_all add: race_label_def ones_def)
  ultimately show ?thesis by simp
qed

lemma race_totals:
  "total_pos race_label = Fin 2" "total_neg race_label = Fin 31"
proof -
  show p: "total_pos race_label = Fin 2"
    unfolding total_pos_def race_lengths using race_cum [of "race_n - 1"]
    by (simp add: race_n_def)
  show "total_neg race_label = Fin 31"
    unfolding total_neg_def p race_lengths
    by (simp add: race_n_def f32_of_int_small fsub_Fin rnd32_small)
qed

lemma race_late:
  assumes "j < race_n"
  shows "reads_late race_sched (int race_n) (int j) \<longleftrightarrow> j < 32"
proof -
  from assms have "j < 32 \<or> j = 32" unfolding race_n_def by arith
  then have w: "warp_of j = (if j < 32 then 0 else 1)"
    by (auto simp: warp_of_def block_dim_def grid_dim_def warp_size_def)
  have l: "nat (int race_n - 1) = 32" "warp_of 32 = 1"
    by (simp_all add: race_n_def warp_of_def block_dim_def grid_dim_def warp_size_def)
  show ?thesis
    by (simp add: reads_late_def race_sched_def in_order_def w l)
qed

lemma race_pos_read:
  assumes "j < race_n"
  shows "pos_read race_sched race_n race_label j = (if j < 32 then Fin 1 else Fin 2)"
  using race_late [OF assms] by (simp add: pos_read_def race_totals rnd32_small)

lemma race_tpr:
  assumes "j < race_n"
  shows "sched_tpr race_sched race_pred race_label ! j =
           (if j = 0 then Fin 1 else if j < 32 then Fin 2 else Fin 1)"
  using assms
  by (simp add: sched_tpr_def race_points race_lengths race_cum race_pos_read rnd32_small)

lemma race_fpr:
  assumes "j < race_n"
  shows "sched_fpr race_sched race_pred race_label ! j =
           fdiv (fsub (fadd (Fin 1) (f32_of_int (int j))) (if j = 0 then Fin 1 else Fin 2))
             (if j < 32 then Fin 32 else Fin 31)"
proof -
  have "fsub (f32_of_int (int race_n)) (pos_read race_sched race_n race_label j) =
      (if j < 32 then Fin 32 else Fin 31)"
    unfolding race_pos_read [OF assms]
    by (simp add: race_n_def f32_of_int_small fsub_Fin rnd32_small)
  then show ?thesis
    using assms by (simp add: sched_fpr_def race_points race_lengths race_cum)
qed

lemma race_finalized:
  "AUC_finalize_metric race_sched race_state =
     Some (roc_auc race_sched race_pred race_label, finalized race_sched race_state race_n)"
  using finalize_finalized [of race_state race_n race_sched]
  by (simp add: race_fields race_sorted) (simp add: race_n_def)

lemma race_finalized_rates:
  assumes "j < race_n"
  shows "tpr (finalized race_sched race_state race_n) ! j =
           (if j = 0 then Fin 1 else if j < 32 then Fin 2 else Fin 1)"
    and "fpr (finalized race_sched race_state race_n) ! j =
           fdiv (fsub (fadd (Fin 1) (f32_of_int (int j))) (if j = 0 then Fin 1 else Fin 2))
             (if j < 32 then Fin 32 else Fin 31)"
    and "d_num_selected_out (finalized race_sched race_state race_n) = int race_n"
  using assms finalized_rates_nth [of j race_state race_n race_sched]
    finalized_fields(2) [where sch = race_sched and s = race_state and n = race_n]
  by (simp_all add: race_sorted race_points race_tpr race_fpr)

lemma rnd32_1_31: "rnd32 (1 / 31) = Fin (1082401 / 33554432)"
  using rnd32_eval [of "1 / 31" "- 5" 8659208] by (simp add: pow2_def)

lemma rnd32_1_32: "rnd32 (1 / 32) = Fin (1 / 32)"
  using rnd32_dyadic [of 1 5] by simp

text \<open>
  C2 fails on the code when a thread of \<^verbatim>\<open>create_fpr_kernel\<close> reads the total of the
  positives after the thread of the last compacted point has overwritten it. In the pass of
  33 samples there are 33 compacted points and the totals are 2 positives and 31
  negatives. The point 1 has the rank 1 and the cumulative count 2, so its true-positive
  rate is \<open>2 / 2 = 1\<close> by C2; the thread of the first warp, which reads late, divides by
  \<open>2 / 2\<close> and stores 2. The point 2 has the rank 2 and the cumulative count 2, so its
  false-positive rate is \<open>(1 + 2 - 2) / 31\<close> by C2; the thread stores \<open>1 / (33 - 1)\<close>.
\<close>

theorem late_read_rates:
  "map_option (d_num_selected_out \<circ> snd) (AUC_finalize_metric race_sched race_state)
     = Some (int race_n)
   \<and> race_n = 33
   \<and> total_pos (sorted_labels race_state race_n) = Fin 2
   \<and> total_neg (sorted_labels race_state race_n) = Fin 31
   \<and> roc_points (sorted_preds race_state race_n) ! 1 = 1
   \<and> cum_labels (sorted_labels race_state race_n) ! 1 = Fin 2
   \<and> fdiv (Fin 2) (Fin 2) = Fin 1
   \<and> map_option ((\<lambda>t. t ! 1) \<circ> tpr \<circ> snd) (AUC_finalize_metric race_sched race_state)
       = Some (Fin 2)
   \<and> roc_points (sorted_preds race_state race_n) ! 2 = 2
   \<and> cum_labels (sorted_labels race_state race_n) ! 2 = Fin 2
   \<and> fdiv (fsub (fadd (Fin 1) (f32_of_int 2)) (Fin 2)) (Fin 31) = Fin (1082401 / 33554432)
   \<and> map_option ((\<lambda>t. t ! 2) \<circ> fpr \<circ> snd) (AUC_finalize_metric race_sched race_state)
       = Some (Fin (1 / 32))"
proof -
  have n: "(1::nat) < race_n" "(2::nat) < race_n" by (simp_all add: race_n_def)
  have a: "tpr (finalized race_sched race_state race_n) ! 1 = Fin 2"
    using race_finalized_rates(1) [OF n(1)] by simp
  have b: "fpr (finalized race_sched race_state race_n) ! 2 = Fin (1 / 32)"
    using race_finalized_rates(2) [OF n(2)]
    by (simp add: f32_of_int_small fsub_Fin rnd32_small rnd32_1_32)
  have c: "fdiv (fsub (fadd (Fin 1) (f32_of_int 2)) (Fin 2)) (Fin 31) = Fin (1082401 / 33554432)"
    by (simp add: f32_of_int_small fsub_Fin rnd32_small rnd32_1_31)
  have p: "roc_points race_pred ! 1 = 1" "roc_points race_pred ! 2 = 2"
    using n by (simp_all add: race_points)
  from a b c p race_cum [OF n(1)] race_cum [OF n(2)] race_finalized_rates(3) [OF n(1)]
  show ?thesis
    by (simp add: race_finalized race_sorted race_totals rnd32_small) (simp add: race_n_def)
qed

section \<open>Monotone rates\<close>

text \<open>
  C7, as the code has it: when the labels are all 0 or 1, at least one label is 1 and at
  least one is 0, there are at most \<open>2\<^sup>2\<^sup>4\<close> samples, and no thread of \<^verbatim>\<open>create_fpr_kernel\<close>
  reads the total of the positives late, the compacted true-positive rates and the compacted
  false-positive rates are non-decreasing. Up to \<open>2\<^sup>2\<^sup>4\<close> every count is exact in single
  precision, and the rounding of the two divisions is monotone.
\<close>

theorem rates_nondecreasing:
  assumes "pid s = 0" and "int n = offset s * num_procs s" and "0 < n" and "capacity_ok s n"
    and "binary_labels (take n (d_label s))"
    and "Fin 1 \<in> set (take n (d_label s))" and "Fin 0 \<in> set (take n (d_label s))"
    and "n \<le> 2 ^ 24"
    and "in_time sch (length (roc_points (sorted_preds s n)))"
  shows "\<exists>auc s'. AUC_finalize_metric sch s = Some (auc, s')
      \<and> nondecreasing (take (nat (d_num_selected_out s')) (fpr s'))
      \<and> nondecreasing (take (nat (d_num_selected_out s')) (tpr s'))"
proof -
  define ps where "ps = sorted_preds s n"
  define ls where "ls = sorted_labels s n"
  have len: "length ps = n" "length ls = n"
    using length_sorted [OF assms(4)] by (simp_all add: ps_def ls_def)
  have st: "set ls = set (take n (d_label s))"
    unfolding ls_def by (rule set_sorted_labels [OF assms(4)])
  have b: "binary_labels ls"
    using assms(5) by (simp add: binary_labels_def list_all_iff st)
  have o: "0 < ones ls" "ones ls < length ls"
    using assms(6,7) by (simp_all add: ones_pos ones_less st)
  have l24: "length ls \<le> 2 ^ 24" using assms(8) by (simp add: len)
  have ll: "length ls = length ps" by (simp add: len)
  note nd = binary_rates_nondecreasing [OF b ll l24 o]
  have it: "in_time sch (length (roc_points ps))" using assms(9) by (simp add: ps_def)
  have fin: "AUC_finalize_metric sch s = Some (roc_auc sch ps ls, finalized sch s n)"
    using finalize_finalized [OF assms(1-4)] by (simp add: ps_def ls_def)
  have "take (nat (d_num_selected_out (finalized sch s n))) (fpr (finalized sch s n)) = roc_fpr ps ls"
    "take (nat (d_num_selected_out (finalized sch s n))) (tpr (finalized sch s n)) = roc_tpr ps ls"
    using finalized_fields(2,3,4) [where sch = sch and s = s and n = n]
    by (simp_all add: ps_def [symmetric] ls_def [symmetric] sched_rates_in_time [OF it])
  with nd fin show ?thesis by simp
qed

lemma example_binary:
  "binary_labels example_label" "Fin 1 \<in> set example_label" "Fin 0 \<in> set example_label"
  by (simp_all add: binary_labels_def example_label_def)

theorem rates_nondecreasing_witness:
  "pid example_state = 0 \<and> int 4 = offset example_state * num_procs example_state \<and> (0::nat) < 4
   \<and> capacity_ok example_state 4 \<and> binary_labels (take 4 (d_label example_state))
   \<and> Fin 1 \<in> set (take 4 (d_label example_state))
   \<and> Fin 0 \<in> set (take 4 (d_label example_state)) \<and> (4::nat) \<le> 2 ^ 24
   \<and> in_time race_sched (length (roc_points (sorted_preds example_state 4)))
   \<and> (\<exists>auc s'. AUC_finalize_metric race_sched example_state = Some (auc, s')
        \<and> nondecreasing (take (nat (d_num_selected_out s')) (fpr s'))
        \<and> nondecreasing (take (nat (d_num_selected_out s')) (tpr s')))"
proof -
  have h: "pid example_state = 0" "int 4 = offset example_state * num_procs example_state"
    "(0::nat) < 4" "capacity_ok example_state 4" "binary_labels (take 4 (d_label example_state))"
    "Fin 1 \<in> set (take 4 (d_label example_state))"
    "Fin 0 \<in> set (take 4 (d_label example_state))" "(4::nat) \<le> 2 ^ 24"
    "in_time race_sched (length (roc_points (sorted_preds example_state 4)))"
    by (simp_all add: example_state_fields example_capacity example_length example_binary
        example_sorted_fields example_in_time)
  from rates_nondecreasing [OF h] h show ?thesis by blast
qed

lemma negatives_fields:
  "pid negatives_state = 0" "offset negatives_state = 2" "num_procs negatives_state = 1"
  "d_pred negatives_state = [Fin (7549747 / 8388608), Fin (13421773 / 16777216)]"
  "d_label negatives_state = [Fin 0, Fin 0]"
  "capacity_ok negatives_state 2"
  "length (tpr negatives_state) = 2"
  by (simp_all add: negatives_state_def AUC_init_def capacity_ok_def rnd32_9_10 rnd32_8_10)

lemma negatives_sorted:
  "sorted_preds negatives_state 2 = [Fin (7549747 / 8388608), Fin (13421773 / 16777216)]"
  "sorted_labels negatives_state 2 = [Fin 0, Fin 0]"
  by (simp_all add: sorted_preds_def sorted_labels_def negatives_fields sort_desc_def key_less_def)

lemma two_points:
  "roc_points [Fin (7549747 / 8388608), Fin (13421773 / 16777216)] = [0, 1]"
proof -
  have "flags_of [Fin (7549747 / 8388608), Fin (13421773 / 16777216)] 2 = [1, 1]"
    by (simp add: flags_of_def flag_at_def fsub_Fin fgt_rnd32_eps)
  moreover have "length [Fin (7549747 / 8388608), Fin (13421773 / 16777216)] = 2" by simp
  ultimately show ?thesis by (simp only: roc_points_def) (simp add: flagged_idx_def upt_2)
qed

lemma two_in_time:
  "in_time sch (length (roc_points [Fin (7549747 / 8388608), Fin (13421773 / 16777216)]))"
  by (rule in_time_small) (simp add: two_points warp_size_def)

lemma negatives_tpr:
  "sched_tpr sch [Fin (7549747 / 8388608), Fin (13421773 / 16777216)] [Fin 0, Fin 0] = [NaN, NaN]"
  unfolding sched_rates_in_time [OF two_in_time]
  by (simp add: roc_tpr_def two_points cum_labels_def total_pos_def rnd32_small)

lemma negatives_finalized:
  "AUC_finalize_metric sch negatives_state =
     Some (roc_auc sch (sorted_preds negatives_state 2) (sorted_labels negatives_state 2),
           finalized sch negatives_state 2)"
  by (rule finalize_finalized) (simp_all add: negatives_fields)

lemma positives_fields:
  "pid positives_state = 0" "offset positives_state = 2" "num_procs positives_state = 1"
  "d_pred positives_state = [Fin (7549747 / 8388608), Fin (13421773 / 16777216)]"
  "d_label positives_state = [Fin 1, Fin 1]"
  "capacity_ok positives_state 2"
  by (simp_all add: positives_state_def AUC_init_def capacity_ok_def rnd32_9_10 rnd32_8_10)

lemma positives_sorted:
  "sorted_preds positives_state 2 = [Fin (7549747 / 8388608), Fin (13421773 / 16777216)]"
  "sorted_labels positives_state 2 = [Fin 1, Fin 1]"
  by (simp_all add: sorted_preds_def sorted_labels_def positives_fields sort_desc_def key_less_def)

lemma positives_total_neg: "total_neg [Fin 1, Fin 1] = Fin 0"
  by (simp add: total_neg_def total_pos_def cum_labels_def f32_of_int_small fsub_Fin rnd32_small)

lemma positives_fpr:
  "sched_fpr sch [Fin (7549747 / 8388608), Fin (13421773 / 16777216)] [Fin 1, Fin 1] = [NaN, NaN]"
  unfolding sched_rates_in_time [OF two_in_time]
  by (simp add: roc_fpr_def two_points cum_labels_def total_neg_def total_pos_def
      f32_of_int_small fsub_Fin rnd32_small)

lemma positives_finalized:
  "AUC_finalize_metric sch positives_state =
     Some (roc_auc sch (sorted_preds positives_state 2) (sorted_labels positives_state 2),
           finalized sch positives_state 2)"
  by (rule finalize_finalized) (simp_all add: positives_fields)

lemma wide_n_facts:
  "0 < wide_n" "0 < wide_n - Suc 0" "Suc (wide_n - Suc 0) = wide_n"
  "wide_n - Suc 0 - Suc 0 = wide_n - 2" "Suc (wide_n - 2) = wide_n - Suc 0" "Suc 0 < wide_n"
  by (simp_all add: wide_n_def)

lemma wide_lengths: "length wide_pred = wide_n" "length wide_label = wide_n"
  by (simp_all add: wide_pred_def wide_label_def wide_n_facts)

lemma wide_fields:
  "pid wide_state = 0" "offset wide_state = int wide_n" "num_procs wide_state = 1"
  "d_pred wide_state = wide_pred" "d_label wide_state = wide_label"
  "capacity_ok wide_state wide_n"
  by (simp_all add: wide_state_def AUC_init_def capacity_ok_def wide_lengths)

lemma wide_sorted:
  "sorted_preds wide_state wide_n = wide_pred" "sorted_labels wide_state wide_n = wide_label"
proof -
  have "\<not> key_less (wide_pred ! i) (wide_pred ! j)" if "i < j" "j < wide_n" for i j
  proof -
    from that have i: "i < wide_n - 1" using wide_n_facts(3) by arith
    then have "wide_pred ! i = Fin (3 / 4)" by (simp add: wide_pred_def nth_append)
    moreover have "wide_pred ! j = Fin (3 / 4) \<or> wide_pred ! j = Fin (1 / 2)"
      using that(2) wide_n_facts(3) by (auto simp: wide_pred_def nth_append less_Suc_eq)
    ultimately show ?thesis by (auto simp: key_less_def)
  qed
  then have "\<forall>i j. i < j \<and> j < wide_n \<longrightarrow> \<not> key_less (wide_pred ! i) (wide_pred ! j)" by blast
  from sorted_state [OF wide_fields(4,5) wide_lengths this]
  show "sorted_preds wide_state wide_n = wide_pred"
    "sorted_labels wide_state wide_n = wide_label" .
qed

lemma wide_points: "roc_points wide_pred = [wide_n - 2, wide_n - 1]"
proof -
  have "roc_points (replicate (wide_n - 1) (Fin (3 / 4)) @ [Fin (1 / 2)])
      = [wide_n - 1 - 1, wide_n - 1]"
    by (rule roc_points_two_runs)
      (simp_all add: wide_n_facts fsub_Fin rnd32_0 not_fgt_zero_eps fgt_rnd32_eps)
  then show ?thesis by (simp add: wide_pred_def wide_n_facts)
qed

lemma ones_replicate_zero: "ones (replicate m (Fin 0)) = 0"
  by (simp add: ones_def)

lemma wide_binary:
  "binary_labels wide_label" "ones wide_label = 1"
  "Fin 1 \<in> set wide_label" "Fin 0 \<in> set wide_label"
  using wide_n_facts(2)
  by (simp_all add: binary_labels_def list_all_iff wide_label_def ones_append ones_replicate_zero
      ones_def)

lemma wide_cum:
  "cum_labels wide_label ! (wide_n - 2) = Fin 0" "cum_labels wide_label ! (wide_n - 1) = Fin 1"
proof -
  have c: "cum_labels wide_label ! i = Fin (of_nat (ones (take (Suc i) wide_label)))"
    if "i < wide_n" for i
    using that by (intro cum_labels_nth) (simp_all add: wide_binary wide_lengths)
  have "ones (take (Suc (wide_n - 2)) wide_label) = 0"
    by (simp add: wide_n_facts wide_label_def ones_replicate_zero)
  moreover have "wide_n - 2 < wide_n" using wide_n_facts(1) by arith
  ultimately show "cum_labels wide_label ! (wide_n - 2) = Fin 0" using c by simp
  have "take (Suc (wide_n - 1)) wide_label = wide_label"
    by (simp add: wide_n_facts wide_lengths)
  moreover have "wide_n - 1 < wide_n" using wide_n_facts(1) by arith
  ultimately show "cum_labels wide_label ! (wide_n - 1) = Fin 1"
    using c [of "wide_n - 1"] by (simp add: wide_binary)
qed

lemma wide_ints:
  "f32_of_int (int wide_n) = Fin 16777216" "f32_of_int (int (wide_n - 1)) = Fin 16777216"
  "f32_of_int (int (wide_n - 2)) = Fin 16777215"
  by (simp_all add: f32_of_int_def wide_n_def rnd32_above_2_24 rnd32_small)

lemma wide_totals: "total_pos wide_label = Fin 1" "total_neg wide_label = Fin 16777215"
proof -
  show p: "total_pos wide_label = Fin 1"
    unfolding total_pos_def wide_lengths by (rule wide_cum)
  show "total_neg wide_label = Fin 16777215"
    unfolding total_neg_def p wide_lengths wide_ints by (simp add: fsub_Fin rnd32_small)
qed

lemma wide_fpr: "sched_fpr sch wide_pred wide_label = [Fin (8388609 / 8388608), Fin 1]"
proof -
  have i: "in_time sch (length (roc_points wide_pred))"
    by (rule in_time_small) (simp add: wide_points warp_size_def)
  have a: "fdiv (fsub (fadd (Fin 1) (Fin 16777215)) (Fin 0)) (Fin 16777215)
      = Fin (8388609 / 8388608)"
    by (simp add: fsub_Fin rnd32_small rnd32_above_2_24)
  have b: "fdiv (fsub (fadd (Fin 1) (Fin 16777216)) (Fin 1)) (Fin 16777215) = Fin 1"
    by (simp add: fsub_Fin rnd32_small rnd32_above_2_24)
  show ?thesis
    unfolding sched_rates_in_time [OF i] roc_fpr_def wide_points list.map wide_cum wide_totals
      wide_ints a b ..
qed

lemma wide_finalized:
  "AUC_finalize_metric sch wide_state =
     Some (roc_auc sch wide_pred wide_label, finalized sch wide_state wide_n)"
  using finalize_finalized [of wide_state wide_n sch]
  by (simp add: wide_fields wide_sorted wide_n_facts)

lemma race_not_monotone:
  "\<not> nondecreasing (sched_tpr race_sched race_pred race_label)"
proof
  assume "nondecreasing (sched_tpr race_sched race_pred race_label)"
  moreover have "Suc 31 < length (sched_tpr race_sched race_pred race_label)"
    by (simp add: length_sched_rates race_points race_n_def)
  ultimately have "fle (sched_tpr race_sched race_pred race_label ! 31)
      (sched_tpr race_sched race_pred race_label ! Suc 31)"
    by (rule nondecreasing_nth)
  moreover have "(31::nat) < race_n" "Suc 31 < race_n" by (simp_all add: race_n_def)
  ultimately show False by (simp add: race_tpr)
qed

text \<open>
  Against C7 as it is stated. With two samples of the label 0 both true-positive rates are
  \<open>0 / 0\<close>, which is NaN, and NaN is not less than or equal to NaN; with two samples of the
  label 1 both false-positive rates are. With \<open>2\<^sup>2\<^sup>4\<close> negative
  samples of one prediction followed by one positive sample, the two compacted points have
  the ranks \<open>2\<^sup>2\<^sup>4 - 1\<close> and \<open>2\<^sup>2\<^sup>4\<close>; one plus the rank is \<open>2\<^sup>2\<^sup>4\<close> for both in single precision,
  the cumulative counts are 0 and 1, and the false-positive rate falls from
  \<open>8388609 / 8388608\<close> to 1. With the pass of 33 samples and the first warp reading late, the
  true-positive rate of the point 31 is 2 and that of the point 32 is 1.
\<close>

theorem rates_nondecreasing_counterexample:
  "binary_labels (d_label negatives_state)
   \<and> map_option (d_num_selected_out \<circ> snd) (AUC_finalize_metric in_order negatives_state) = Some 2
   \<and> map_option (take 2 \<circ> tpr \<circ> snd) (AUC_finalize_metric in_order negatives_state)
       = Some [NaN, NaN]
   \<and> map_option (nondecreasing \<circ> take 2 \<circ> tpr \<circ> snd) (AUC_finalize_metric in_order negatives_state)
       = Some False
   \<and> binary_labels (d_label positives_state)
   \<and> map_option (take 2 \<circ> fpr \<circ> snd) (AUC_finalize_metric in_order positives_state)
       = Some [NaN, NaN]
   \<and> map_option (nondecreasing \<circ> take 2 \<circ> fpr \<circ> snd) (AUC_finalize_metric in_order positives_state)
       = Some False
   \<and> binary_labels (d_label wide_state)
   \<and> Fin 1 \<in> set (d_label wide_state) \<and> Fin 0 \<in> set (d_label wide_state)
   \<and> map_option (d_num_selected_out \<circ> snd) (AUC_finalize_metric in_order wide_state) = Some 2
   \<and> map_option (take 2 \<circ> fpr \<circ> snd) (AUC_finalize_metric in_order wide_state)
       = Some [Fin (8388609 / 8388608), Fin 1]
   \<and> map_option (nondecreasing \<circ> take 2 \<circ> fpr \<circ> snd) (AUC_finalize_metric in_order wide_state)
       = Some False
   \<and> binary_labels (d_label race_state)
   \<and> Fin 1 \<in> set (d_label race_state) \<and> Fin 0 \<in> set (d_label race_state)
   \<and> map_option ((\<lambda>t. (t ! 31, t ! 32)) \<circ> tpr \<circ> snd) (AUC_finalize_metric race_sched race_state)
       = Some (Fin 2, Fin 1)
   \<and> map_option (nondecreasing \<circ> take race_n \<circ> tpr \<circ> snd)
        (AUC_finalize_metric race_sched race_state) = Some False"
proof -
  have a: "d_num_selected_out (finalized in_order negatives_state 2) = 2"
    "take 2 (tpr (finalized in_order negatives_state 2)) = [NaN, NaN]"
    by (simp_all add: finalized_def Let_def negatives_sorted two_points negatives_tpr)
  have b: "d_num_selected_out (finalized in_order wide_state wide_n) = 2"
    "take 2 (fpr (finalized in_order wide_state wide_n)) = [Fin (8388609 / 8388608), Fin 1]"
    by (simp_all add: finalized_def Let_def wide_sorted wide_points wide_fpr)
  have n: "(31::nat) < race_n" "(32::nat) < race_n" by (simp_all add: race_n_def)
  have c: "tpr (finalized race_sched race_state race_n) ! 31 = Fin 2"
    "tpr (finalized race_sched race_state race_n) ! 32 = Fin 1"
    using race_finalized_rates(1) [OF n(1)] race_finalized_rates(1) [OF n(2)] by simp_all
  have d: "take race_n (tpr (finalized race_sched race_state race_n)) =
      sched_tpr race_sched race_pred race_label"
    using finalized_fields(3) [where sch = race_sched and s = race_state and n = race_n]
    by (simp add: race_sorted race_points)
  have e: "binary_labels race_label" "Fin 1 \<in> set race_label" "Fin 0 \<in> set race_label"
    by (simp_all add: race_binary) (simp_all add: race_label_def race_n_def)
  have f: "binary_labels [Fin 0, Fin 0]" "binary_labels [Fin 1, Fin 1]"
    by (simp_all add: binary_labels_def)
  have g: "take 2 (fpr (finalized in_order positives_state 2)) = [NaN, NaN]"
    by (simp add: finalized_def Let_def positives_sorted two_points positives_fpr)
  show ?thesis
    by (simp add: negatives_finalized a negatives_fields f positives_finalized g positives_fields
        wide_finalized b wide_fields wide_binary race_finalized c d e race_fields
        race_not_monotone)
qed

section \<open>Labels of one kind\<close>

lemma fadd_NaN [simp]: "fadd x NaN = NaN"
  by (cases x) simp_all

lemma fmul_NaN [simp]: "fmul x NaN = NaN"
  by (cases x) simp_all

lemma fsub_NaN [simp]: "fsub NaN y = NaN" "fsub x NaN = NaN"
  by (simp_all add: fsub_def fneg_def)

lemma foldl_fadd_NaN: "foldl fadd NaN xs = NaN"
  by (induction xs) simp_all

lemma foldl_fadd_has_NaN: "NaN \<in> set xs \<Longrightarrow> foldl fadd a xs = NaN"
  by (induction xs arbitrary: a) (auto simp: foldl_fadd_NaN)

lemma fadd_not_number: "\<not> is_number x \<or> \<not> is_number y \<Longrightarrow> \<not> is_number (fadd x y)"
  by (cases x; cases y) simp_all

lemma fsub_not_number: "\<not> is_number x \<or> \<not> is_number y \<Longrightarrow> \<not> is_number (fsub x y)"
  by (cases x; cases y) (simp_all add: fsub_def fneg_def)

lemma fmul_not_number: "\<not> is_number x \<or> \<not> is_number y \<Longrightarrow> \<not> is_number (fmul x y)"
  by (cases x; cases y) (simp_all add: signed_inf_def)

lemma fdiv_not_number: "\<not> is_number x \<Longrightarrow> \<not> is_number (fdiv x (Fin b))"
  by (cases x) (simp_all add: signed_inf_def)

lemma fdiv_by_zero: "\<not> is_number (fdiv x (Fin 0))"
  by (cases x) (simp_all add: signed_inf_def)

lemma foldl_fadd_not_number_acc: "\<not> is_number a \<Longrightarrow> \<not> is_number (foldl fadd a xs)"
  by (induction xs arbitrary: a) (simp_all add: fadd_not_number)

lemma foldl_fadd_not_number:
  "x \<in> set xs \<Longrightarrow> \<not> is_number x \<Longrightarrow> \<not> is_number (foldl fadd a xs)"
  by (induction xs arbitrary: a) (auto simp: fadd_not_number foldl_fadd_not_number_acc)

text \<open>The term of the last pair of at least two points, and the sum that holds it.\<close>

lemma last_term_not_number:
  assumes "2 \<le> k" and "\<not> is_number (x ! (k - 1))"
  shows "\<not> is_number (trapezoid_term x y (k - 2))"
proof -
  from assms(1) have s: "k - 2 + 1 = k - 1" by simp
  have "\<not> is_number (segment_area x y (k - 2))"
    unfolding segment_area_def s
    by (intro fdiv_not_number fmul_not_number disjI1 fsub_not_number assms(2))
  then show ?thesis
    by (cases "k - 2 = 0") (simp_all add: trapezoid_term_def fadd_not_number)
qed

lemma last_term_NaN:
  assumes "2 \<le> k" and "y ! (k - 1) = NaN"
  shows "trapezoid_term x y (k - 2) = NaN"
proof -
  from assms(1) have s: "k - 2 + 1 = k - 1" by simp
  have "segment_area x y (k - 2) = NaN"
    unfolding segment_area_def s assms(2) by simp
  then show ?thesis by (cases "k - 2 = 0") (simp_all add: trapezoid_term_def)
qed

lemma last_term_in_block:
  assumes "2 \<le> k"
  shows "k - 2 \<in> set (block_adds sch k (block_of (k - 2)))"
    and "block_of (k - 2) \<in> set (block_order sch)"
  using assms block_of_less [of "k - 2"] by (auto simp: set_block_adds set_block_order)

lemma trapezoid_sum_not_number:
  assumes "2 \<le> k" and "\<not> is_number (trapezoid_term x y (k - 2))"
  shows "\<not> is_number (trapezoid_sum sch x y k)"
proof -
  have "\<not> is_number (block_sum sch x y k (block_of (k - 2)))"
    unfolding block_sum_def
    using last_term_in_block(1) [OF assms(1), of sch] assms(2)
    by (intro foldl_fadd_not_number [of "trapezoid_term x y (k - 2)"]) simp_all
  then show ?thesis
    unfolding trapezoid_sum_def
    using last_term_in_block(2) [OF assms(1), of sch]
    by (intro foldl_fadd_not_number [of "block_sum sch x y k (block_of (k - 2))"]) simp_all
qed

lemma trapezoid_sum_NaN:
  assumes "2 \<le> k" and "trapezoid_term x y (k - 2) = NaN"
  shows "trapezoid_sum sch x y k = NaN"
proof -
  have "NaN \<in> set (map (trapezoid_term x y) (block_adds sch k (block_of (k - 2))))"
    using last_term_in_block(1) [OF assms(1), of sch] assms(2) by force
  then have "block_sum sch x y k (block_of (k - 2)) = NaN"
    unfolding block_sum_def by (rule foldl_fadd_has_NaN)
  then have "NaN \<in> set (map (block_sum sch x y k) (block_order sch))"
    using last_term_in_block(2) [OF assms(1), of sch] by force
  then show ?thesis unfolding trapezoid_sum_def by (rule foldl_fadd_has_NaN)
qed

lemma cum_labels_zero:
  assumes "\<forall>x \<in> set ls. x = Fin 0" and "i < length ls"
  shows "cum_labels ls ! i = Fin 0"
proof (cases ls)
  case Nil
  with assms(2) show ?thesis by simp
next
  case (Cons x xs)
  with assms(1) have x: "x = Fin 0" and xs: "\<forall>x \<in> set xs. x = Fin 0" by simp_all
  show ?thesis
  proof (cases i)
    case 0
    then show ?thesis by (simp add: Cons cum_labels_def x)
  next
    case (Suc j)
    with assms(2) Cons have j: "j < length xs" by simp
    have "\<forall>x \<in> set (take (Suc j) xs). x = Fin 0" using xs by (auto dest: in_set_takeD)
    then have "foldl fadd (Fin 0) (take (Suc j) xs) = Fin 0" by (rule foldl_fadd_zero)
    with j show ?thesis by (simp add: Cons Suc cum_labels_def scan_from_nth x)
  qed
qed

lemma total_pos_no_positive:
  assumes "ls \<noteq> []" and "\<forall>x \<in> set ls. x = Fin 0"
  shows "total_pos ls = Fin 0"
  unfolding total_pos_def using assms by (intro cum_labels_zero) simp_all

text \<open>The rates of the last compacted point, which no schedule changes.\<close>

lemma last_rates:
  assumes "ps \<noteq> []" and "length ls = length ps" and "k = length (roc_points ps)"
  shows "sched_tpr sch ps ls ! (k - 1) = fdiv (total_pos ls) (total_pos ls)"
    and "sched_fpr sch ps ls ! (k - 1) =
           fdiv (fsub (fadd (Fin 1) (f32_of_int (int (length ps - 1)))) (total_pos ls))
             (total_neg ls)"
proof -
  note pr = roc_points_props [OF assms(1)]
  from pr(1) have k: "0 < k" "k - 1 < length (roc_points ps)" by (simp_all add: assms(3))
  have lst: "roc_points ps ! (k - Suc 0) = length ps - Suc 0"
    using pr(1,2) by (simp add: last_conv_nth assms(3))
  show "sched_tpr sch ps ls ! (k - 1) = fdiv (total_pos ls) (total_pos ls)"
    unfolding sched_rates_last(1) [OF pr(1) assms(3)]
    using k(2) by (simp add: roc_tpr_def lst total_pos_def assms(2))
  show "sched_fpr sch ps ls ! (k - 1) =
      fdiv (fsub (fadd (Fin 1) (f32_of_int (int (length ps - 1)))) (total_pos ls)) (total_neg ls)"
    unfolding sched_rates_last(2) [OF pr(1) assms(3)]
    using k(2) by (simp add: roc_fpr_def lst total_pos_def assms(2))
qed

text \<open>
  C6, as the code has it: when every label is 0, the total of the positives is zero; when
  every label is 1 and the total of the negatives is zero, or whenever that total is zero,
  the rate of the last compacted point that divides by the zero total is not a number: the
  true-positive rate is the NaN of \<open>0 / 0\<close>, the false-positive rate is NaN or infinite. No
  branch replaces it. With two compacted points or more the result of finalize is not a
  number either, under every schedule, and it is NaN when every label is 0. With a single
  compacted point \<^verbatim>\<open>trapz_kernel\<close> adds no term and finalize returns 0.
\<close>

theorem degenerate_labels_result:
  assumes "pid s = 0" and "int n = offset s * num_procs s" and "0 < n" and "capacity_ok s n"
    and "(\<forall>x \<in> set (take n (d_label s)). x = Fin 0)
         \<or> ((\<forall>x \<in> set (take n (d_label s)). x = Fin 1)
             \<and> total_neg (sorted_labels s n) = Fin 0)"
  shows "\<exists>auc s'. AUC_finalize_metric sch s = Some (auc, s')
      \<and> 1 \<le> d_num_selected_out s'
      \<and> (2 \<le> d_num_selected_out s' \<longrightarrow> \<not> is_number auc)
      \<and> (d_num_selected_out s' = 1 \<longrightarrow> auc = Fin 0)
      \<and> ((\<forall>x \<in> set (take n (d_label s)). x = Fin 0) \<longrightarrow>
            total_pos (sorted_labels s n) = Fin 0
            \<and> tpr s' ! (nat (d_num_selected_out s') - 1) = NaN
            \<and> (2 \<le> d_num_selected_out s' \<longrightarrow> auc = NaN))
      \<and> (total_neg (sorted_labels s n) = Fin 0 \<longrightarrow>
            \<not> is_number (fpr s' ! (nat (d_num_selected_out s') - 1)))"
proof -
  define ps where "ps = sorted_preds s n"
  define ls where "ls = sorted_labels s n"
  define k where "k = length (roc_points ps)"
  define x where "x = sched_fpr sch ps ls"
  define y where "y = sched_tpr sch ps ls"
  have len: "length ps = n" "length ls = n"
    using length_sorted [OF assms(4)] by (simp_all add: ps_def ls_def)
  with assms(3) have ne: "ps \<noteq> []" "ls \<noteq> []" by auto
  have ll: "length ls = length ps" by (simp add: len)
  have st: "set ls = set (take n (d_label s))"
    unfolding ls_def by (rule set_sorted_labels [OF assms(4)])
  have kpos: "1 \<le> k"
    using roc_points_props(1) [OF ne(1)] by (cases "roc_points ps") (simp_all add: k_def)
  have fin: "AUC_finalize_metric sch s = Some (roc_auc sch ps ls, finalized sch s n)"
    using finalize_finalized [OF assms(1-4)] by (simp add: ps_def ls_def)
  have f: "d_num_selected_out (finalized sch s n) = int k"
    "tpr (finalized sch s n) ! (k - 1) = y ! (k - 1)"
    "fpr (finalized sch s n) ! (k - 1) = x ! (k - 1)"
    using kpos finalized_rates_nth [of "k - 1" s n sch]
    by (simp_all add: finalized_fields ps_def [symmetric] ls_def [symmetric] k_def x_def y_def)
  note lr = last_rates [OF ne(1) ll k_def, of sch]
  have auc: "roc_auc sch ps ls = trapezoid_sum sch x y k"
    by (simp add: roc_auc_def x_def y_def k_def)
  \<comment> \<open>no positive\<close>
  have zp: "total_pos ls = Fin 0" if "\<forall>x \<in> set (take n (d_label s)). x = Fin 0"
    using that by (intro total_pos_no_positive [OF ne(2)]) (simp add: st)
  have zt: "y ! (k - 1) = NaN" if "\<forall>x \<in> set (take n (d_label s)). x = Fin 0"
    unfolding y_def lr(1) zp [OF that] by simp
  have za: "roc_auc sch ps ls = NaN"
    if "\<forall>x \<in> set (take n (d_label s)). x = Fin 0" and "2 \<le> k"
    unfolding auc using that(2) last_term_NaN [OF that(2) zt [OF that(1)]]
    by (rule trapezoid_sum_NaN)
  \<comment> \<open>no negative\<close>
  have nf: "\<not> is_number (x ! (k - 1))" if "total_neg ls = Fin 0"
    unfolding x_def lr(2) that by (rule fdiv_by_zero)
  have na: "\<not> is_number (roc_auc sch ps ls)" if "total_neg ls = Fin 0" and "2 \<le> k"
    unfolding auc using that(2) last_term_not_number [OF that(2) nf [OF that(1)]]
    by (rule trapezoid_sum_not_number)
  have a2: "\<not> is_number (roc_auc sch ps ls)" if "2 \<le> k"
    using assms(5) za [OF _ that] na [OF _ that] unfolding ls_def [symmetric] by auto
  have a1: "roc_auc sch ps ls = Fin 0" if "k = 1"
    using that by (simp add: roc_auc_def k_def [symmetric] trapezoid_sum_single)
  from fin f kpos a1 a2 zp zt za nf show ?thesis
    unfolding ls_def [symmetric] by simp
qed

theorem degenerate_labels_result_witness:
  "pid positives_state = 0 \<and> int 2 = offset positives_state * num_procs positives_state
   \<and> (0::nat) < 2 \<and> capacity_ok positives_state 2
   \<and> take 2 (d_label positives_state) = [Fin 1, Fin 1]
   \<and> total_neg (sorted_labels positives_state 2) = Fin 0
   \<and> (\<exists>auc s'. AUC_finalize_metric in_order positives_state = Some (auc, s')
        \<and> d_num_selected_out s' = 2 \<and> \<not> is_number auc
        \<and> \<not> is_number (fpr s' ! (nat (d_num_selected_out s') - 1)))"
proof -
  have h: "pid positives_state = 0" "int 2 = offset positives_state * num_procs positives_state"
    "(0::nat) < 2" "capacity_ok positives_state 2"
    by (simp_all add: positives_fields)
  have o: "(\<forall>x \<in> set (take 2 (d_label positives_state)). x = Fin 1)
      \<and> total_neg (sorted_labels positives_state 2) = Fin 0"
    by (simp add: positives_fields positives_sorted positives_total_neg)
  from degenerate_labels_result [OF h disjI2 [OF o], of in_order]
  obtain auc s' where r: "AUC_finalize_metric in_order positives_state = Some (auc, s')"
    "2 \<le> d_num_selected_out s' \<longrightarrow> \<not> is_number auc"
    "total_neg (sorted_labels positives_state 2) = Fin 0 \<longrightarrow>
       \<not> is_number (fpr s' ! (nat (d_num_selected_out s') - 1))"
    by blast
  have "AUC_finalize_metric in_order positives_state =
      Some (roc_auc in_order (sorted_preds positives_state 2) (sorted_labels positives_state 2),
            finalized in_order positives_state 2)"
    by (rule finalize_finalized) (simp_all add: positives_fields)
  with r(1) have "s' = finalized in_order positives_state 2" by simp
  then have k: "d_num_selected_out s' = 2"
    by (simp add: finalized_fields positives_sorted two_points)
  from r k o h show ?thesis by (simp add: positives_fields)
qed

lemma single_fields:
  "pid single_state = 0" "offset single_state = 1" "num_procs single_state = 1"
  "d_pred single_state = [Fin (7549747 / 8388608)]" "d_label single_state = [Fin 1]"
  "capacity_ok single_state (Suc 0)"
  by (simp_all add: single_state_def AUC_init_def capacity_ok_def rnd32_9_10)

text \<open>
  Against C6 as it is stated: with one sample of the label 1 the total of the negatives is
  zero and the false-positive rate is NaN, but finalize returns 0.
\<close>

theorem degenerate_labels_counterexample:
  "d_label single_state = [Fin 1]
   \<and> map_option (d_num_selected_out \<circ> snd) (AUC_finalize_metric in_order single_state) = Some 1
   \<and> map_option (take 1 \<circ> fpr \<circ> snd) (AUC_finalize_metric in_order single_state) = Some [NaN]
   \<and> map_option (take 1 \<circ> tpr \<circ> snd) (AUC_finalize_metric in_order single_state) = Some [Fin 1]
   \<and> map_option fst (AUC_finalize_metric in_order single_state) = Some (Fin 0)"
proof -
  have fin: "AUC_finalize_metric in_order single_state =
      Some (roc_auc in_order (sorted_preds single_state (Suc 0))
              (sorted_labels single_state (Suc 0)),
            finalized in_order single_state (Suc 0))"
    by (rule finalize_finalized) (simp_all add: single_fields)
  have srt: "sorted_preds single_state (Suc 0) = [Fin (7549747 / 8388608)]"
    "sorted_labels single_state (Suc 0) = [Fin 1]"
    by (simp_all add: sorted_preds_def sorted_labels_def single_fields sort_desc_def)
  have pts: "roc_points [Fin (7549747 / 8388608)] = [0]"
    by (simp add: roc_points_def flags_of_def flagged_idx_def)
  have it: "in_time in_order (length (roc_points [Fin (7549747 / 8388608)]))"
    by (rule in_time_small) (simp add: pts warp_size_def)
  have cum: "cum_labels [Fin 1] = [Fin 1]" by (simp add: cum_labels_def)
  have tot: "total_pos [Fin 1] = Fin 1" "total_neg [Fin 1] = Fin 0"
    by (simp_all add: total_pos_def total_neg_def cum f32_of_int_small fsub_Fin rnd32_small)
  have rates: "sched_tpr in_order [Fin (7549747 / 8388608)] [Fin 1] = [Fin 1]"
    "sched_fpr in_order [Fin (7549747 / 8388608)] [Fin 1] = [NaN]"
    unfolding sched_rates_in_time [OF it]
    by (simp_all add: roc_tpr_def roc_fpr_def pts cum tot f32_of_int_small fsub_Fin rnd32_small)
  have auc: "roc_auc in_order [Fin (7549747 / 8388608)] [Fin 1] = Fin 0"
    by (simp add: roc_auc_def pts trapezoid_sum_single)
  have "d_num_selected_out (finalized in_order single_state (Suc 0)) = 1"
    "take 1 (fpr (finalized in_order single_state (Suc 0))) = [NaN]"
    "take 1 (tpr (finalized in_order single_state (Suc 0))) = [Fin 1]"
    by (simp_all add: finalized_def Let_def srt pts rates)
  with fin auc show ?thesis by (simp add: single_fields srt)
qed

section \<open>The last compacted point\<close>

lemma sort_desc_same_key:
  assumes "\<forall>p \<in> set zs. fst p = c"
  shows "sort_desc zs = zs"
  using assms
proof (induction zs)
  case Nil
  then show ?case by (simp add: sort_desc_def)
next
  case (Cons z zs)
  then have ih: "sort_desc zs = zs" by simp
  have "insert_desc z zs = z # zs"
  proof (cases zs)
    case Nil
    then show ?thesis by simp
  next
    case (Cons y ys)
    with Cons.prems \<open>\<forall>p \<in> set (z # zs). fst p = c\<close> have "fst z = c" "fst y = c" by simp_all
    then show ?thesis by (simp add: Cons key_less_def)
  qed
  with ih show ?case by (simp add: sort_desc_def)
qed

lemma tied_points:
  assumes "0 < n" and "\<not> fgt (fsub p p) eps"
  shows "roc_points (replicate n p) = [n - 1]"
proof -
  have fl: "flags_of (replicate n p) n ! i = 0" if "i < n - 1" for i
    using that assms(2) by (simp add: flags_of_nth flag_at_def)
  have l: "flags_of (replicate n p) n ! (n - 1) = 1"
    using assms(1) by (simp add: flags_of_nth)
  have u: "[0..<n] = [0..<n - 1] @ [n - 1]"
    using assms(1) by (metis Suc_diff_1 upt_Suc_append zero_le)
  have "filter (\<lambda>i. flags_of (replicate n p) n ! i \<noteq> 0) [0..<n - 1] = []"
    using fl by (simp add: filter_empty_conv)
  then have "filter (\<lambda>i. flags_of (replicate n p) n ! i \<noteq> 0) [0..<n] = [n - 1]"
    using l by (subst u) simp
  then show ?thesis using assms(1) by (simp add: roc_points_def flagged_idx_def length_flags_of)
qed

lemma foldl_fadd_one_zeros: "foldl fadd (Fin 1) (replicate m (Fin 0)) = Fin 1"
  by (induction m) (simp_all add: rnd32_1)

lemma cum_one_then_zeros: "cum_labels (Fin 1 # replicate m (Fin 0)) ! m = Fin 1"
proof (cases m)
  case 0
  then show ?thesis by (simp add: cum_labels_def)
next
  case (Suc j)
  have "scan_from fadd (Fin 1) (replicate (Suc j) (Fin 0)) ! j =
      foldl fadd (Fin 1) (take (Suc j) (replicate (Suc j) (Fin 0)))"
    by (rule scan_from_nth) simp
  then show ?thesis
    using foldl_fadd_one_zeros [of "Suc j"] by (simp add: cum_labels_def Suc)
qed

text \<open>
  C10, as the code has it: for a pass of \<open>n \<ge> 1\<close> samples the flag of the last position
  is 1, the number of compacted points is between 1 and \<open>n\<close>, the rank of the last compacted
  point is \<open>n - 1\<close>, and \<^verbatim>\<open>create_fpr_kernel\<close> and \<^verbatim>\<open>trapz_kernel\<close> stay inside arrays of exactly
  that many elements. The last true-positive rate is 1 when the total of the positives is a
  number other than zero. The last false-positive rate is 1 when the total of the negatives
  is a number other than zero and \<open>n \<le> 2\<^sup>2\<^sup>4\<close>, so that \<open>1.0f + (n - 1)\<close> is exact.
\<close>

theorem last_compacted_point:
  assumes "pid s = 0" and "int n = offset s * num_procs s" and "0 < n" and "capacity_ok s n"
  shows "\<exists>auc s'. AUC_finalize_metric sch s = Some (auc, s')
      \<and> d_flag s' ! (n - 1) = 1
      \<and> 1 \<le> d_num_selected_out s' \<and> d_num_selected_out s' \<le> int n
      \<and> d_unique_index s' ! (nat (d_num_selected_out s') - 1) = int n - 1
      \<and> d_inc_sum s' ! (n - 1) = total_pos (sorted_labels s n)
      \<and> (\<forall>t u f N. length t = nat (d_num_selected_out s') \<and> length u = nat (d_num_selected_out s')
             \<and> length f = nat (d_num_selected_out s')
             \<longrightarrow> create_fpr_kernel sch t u f (d_num_selected_out s') N \<noteq> None)
      \<and> (\<forall>x y a. length x = nat (d_num_selected_out s') \<and> length y = nat (d_num_selected_out s')
             \<longrightarrow> trapz_kernel sch y x a (d_num_selected_out s') \<noteq> None)
      \<and> (nonzero (total_pos (sorted_labels s n)) \<longrightarrow>
            tpr s' ! (nat (d_num_selected_out s') - 1) = Fin 1)
      \<and> (nonzero (total_neg (sorted_labels s n)) \<and> n \<le> 2 ^ 24 \<longrightarrow>
            fpr s' ! (nat (d_num_selected_out s') - 1) = Fin 1)"
proof -
  define ps where "ps = sorted_preds s n"
  define ls where "ls = sorted_labels s n"
  define k where "k = length (roc_points ps)"
  have len: "length ps = n" "length ls = n"
    using length_sorted [OF assms(4)] by (simp_all add: ps_def ls_def)
  with assms(3) have ne: "ps \<noteq> []" by auto
  note pr = roc_points_props [OF ne]
  have kpos: "0 < k" using pr(1) by (simp add: k_def)
  have kn: "k \<le> n" using length_roc_points [OF ne] by (simp add: k_def len)
  have lst: "roc_points ps ! (k - Suc 0) = n - Suc 0"
    using pr(1,2) by (simp add: last_conv_nth len k_def)
  have fin: "AUC_finalize_metric sch s = Some (roc_auc sch ps ls, finalized sch s n)"
    using finalize_finalized [OF assms(1-4)] by (simp add: ps_def ls_def)
  have sel: "d_num_selected_out (finalized sch s n) = int k"
    by (simp add: finalized_def Let_def ps_def [symmetric] k_def)
  have fl: "d_flag (finalized sch s n) ! (n - 1) = 1"
    using assms(3)
    by (simp add: finalized_def Let_def ps_def [symmetric] nth_append length_flags_of flags_of_nth)
  have ui: "d_unique_index (finalized sch s n) ! (k - 1) = int n - 1"
    using kpos assms(3)
    by (simp add: finalized_def Let_def ps_def [symmetric] nth_append k_def [symmetric] lst
        of_nat_diff)
  have inc: "d_inc_sum (finalized sch s n) ! (n - 1) = total_pos ls"
    using assms(3)
    by (simp add: finalized_def Let_def ls_def [symmetric] nth_append cum_labels_def
        length_inclusive_scan len total_pos_def)
  have cf: "create_fpr_kernel sch t u f (int k) N \<noteq> None"
    if "length t = k" "length u = k" "length f = k" for t u f N
    using create_fpr_kernel_eq [OF kpos, of t u f sch N] that by simp
  have tz: "trapz_kernel sch y x a (int k) \<noteq> None" if "length x = k" "length y = k" for x y a
    using trapz_kernel_eq [of k x y sch a] that by simp
  have ll: "length ls = length ps" by (simp add: len)
  note lr = last_rates [OF ne ll k_def, of sch]
  have tp: "tpr (finalized sch s n) ! (k - 1) = fdiv (total_pos ls) (total_pos ls)"
    using kpos finalized_rates_nth(1) [of "k - 1" s n sch] lr(1)
    by (simp add: ps_def [symmetric] ls_def [symmetric] k_def [symmetric])
  have fp: "fpr (finalized sch s n) ! (k - 1) =
      fdiv (fsub (fadd (Fin 1) (f32_of_int (int (n - 1)))) (total_pos ls)) (total_neg ls)"
    using kpos finalized_rates_nth(2) [of "k - 1" s n sch] lr(2)
    by (simp add: ps_def [symmetric] ls_def [symmetric] k_def [symmetric] len)
  have t1: "tpr (finalized sch s n) ! (k - 1) = Fin 1" if "nonzero (total_pos ls)"
    unfolding tp using that by (rule fdiv_self)
  have f1: "fpr (finalized sch s n) ! (k - 1) = Fin 1"
    if nz: "nonzero (total_neg ls)" and b: "n \<le> 2 ^ 24"
  proof -
    have n1: "n - 1 \<le> 2 ^ 24" using b by simp
    have "f32_of_int (int (n - 1)) = Fin (of_nat (n - 1))"
      using rnd32_of_nat [OF n1] by (simp add: f32_of_int_def)
    then have "fadd (Fin 1) (f32_of_int (int (n - 1))) = rnd32 (of_nat (Suc (n - 1)))"
      by (simp add: add.commute)
    also have "Suc (n - 1) = n" using assms(3) by simp
    also have "rnd32 (of_nat n) = f32_of_int (int n)" by (simp add: f32_of_int_def)
    finally have "fsub (fadd (Fin 1) (f32_of_int (int (n - 1)))) (total_pos ls) = total_neg ls"
      by (simp add: total_neg_def len)
    then show ?thesis unfolding fp using nz by (simp add: fdiv_self)
  qed
  from fin sel fl ui inc cf tz t1 f1 kpos kn show ?thesis
    by (simp add: ls_def [symmetric])
qed

theorem last_compacted_point_witness:
  "pid example_state = 0 \<and> int 4 = offset example_state * num_procs example_state \<and> (0::nat) < 4
   \<and> capacity_ok example_state 4
   \<and> nonzero (total_pos (sorted_labels example_state 4))
   \<and> nonzero (total_neg (sorted_labels example_state 4)) \<and> (4::nat) \<le> 2 ^ 24
   \<and> (\<exists>auc s'. AUC_finalize_metric in_order example_state = Some (auc, s')
        \<and> d_flag s' ! (4 - 1) = 1 \<and> 1 \<le> d_num_selected_out s' \<and> d_num_selected_out s' \<le> int 4
        \<and> d_unique_index s' ! (nat (d_num_selected_out s') - 1) = int 4 - 1
        \<and> tpr s' ! (nat (d_num_selected_out s') - 1) = Fin 1
        \<and> fpr s' ! (nat (d_num_selected_out s') - 1) = Fin 1)"
proof -
  have h: "pid example_state = 0" "int 4 = offset example_state * num_procs example_state"
    "(0::nat) < 4" "capacity_ok example_state 4"
    by (simp_all add: example_state_fields example_capacity)
  have nz: "nonzero (total_pos (sorted_labels example_state 4))"
    "nonzero (total_neg (sorted_labels example_state 4))" "(4::nat) \<le> 2 ^ 24"
    by (simp_all add: example_sorted_fields example_totals)
  from last_compacted_point [OF h, of in_order] nz h show ?thesis by blast
qed

lemma big_n_pos: "0 < big_n" "Suc (big_n - 1) = big_n" "Suc (big_n - Suc 0) = big_n"
  by (simp_all add: big_n_def)

lemma big_lengths: "length big_pred = big_n" "length big_label = big_n"
  by (simp_all add: big_pred_def big_label_def big_n_pos)

lemma big_fields:
  "pid big_state = 0" "offset big_state = int big_n" "num_procs big_state = 1"
  "d_pred big_state = big_pred" "d_label big_state = big_label"
  "capacity_ok big_state big_n"
  by (simp_all add: big_state_def AUC_init_def capacity_ok_def big_lengths)

lemma big_sorted:
  "sorted_preds big_state big_n = big_pred" "sorted_labels big_state big_n = big_label"
proof -
  have l: "length big_pred = length big_label" by (simp add: big_lengths)
  have t: "take big_n (d_pred big_state) = big_pred" "take big_n (d_label big_state) = big_label"
    by (simp_all add: big_fields big_lengths)
  have "\<forall>p \<in> set (zip big_pred big_label). fst p = rnd32 (1 / 2)"
    by (auto simp: big_pred_def dest!: set_zip_leftD)
  then have s: "sort_desc (zip big_pred big_label) = zip big_pred big_label"
    by (rule sort_desc_same_key)
  show "sorted_preds big_state big_n = big_pred"
    unfolding sorted_preds_def t s using l by (simp only: map_fst_zip)
  show "sorted_labels big_state big_n = big_label"
    unfolding sorted_labels_def t s using l by (simp only: map_snd_zip)
qed

lemma big_points: "roc_points big_pred = [big_n - 1]"
  unfolding big_pred_def
  by (rule tied_points) (simp_all add: big_n_pos rnd32_halves fsub_Fin rnd32_0 not_fgt_zero_eps)

lemma big_cum: "cum_labels big_label ! (big_n - 1) = Fin 1"
  unfolding big_label_def by (rule cum_one_then_zeros)

lemma big_ints:
  "f32_of_int (int big_n) = Fin 16777218" "f32_of_int (int (big_n - 1)) = Fin 16777216"
  by (simp_all add: f32_of_int_def big_n_def rnd32_above_2_24)

lemma big_totals: "total_pos big_label = Fin 1" "total_neg big_label = Fin 16777216"
proof -
  show p: "total_pos big_label = Fin 1"
    unfolding total_pos_def big_lengths by (rule big_cum)
  show "total_neg big_label = Fin 16777216"
    unfolding total_neg_def p big_lengths big_ints
    by (simp add: fsub_Fin rnd32_above_2_24)
qed

lemma big_roc_rates:
  "roc_tpr big_pred big_label = [Fin 1]"
  "roc_fpr big_pred big_label = [Fin (16777215 / 16777216)]"
proof -
  show "roc_tpr big_pred big_label = [Fin 1]"
    unfolding roc_tpr_def big_points list.map big_cum big_totals by (simp add: rnd32_1)
  have "fdiv (fsub (fadd (Fin 1) (Fin 16777216)) (Fin 1)) (Fin 16777216) =
      Fin (16777215 / 16777216)"
    by (simp add: fsub_Fin rnd32_above_2_24 rnd32_small)
  then show "roc_fpr big_pred big_label = [Fin (16777215 / 16777216)]"
    unfolding roc_fpr_def big_points list.map big_cum big_totals big_ints by simp
qed

lemma big_rates:
  "sched_tpr sch big_pred big_label = [Fin 1]"
  "sched_fpr sch big_pred big_label = [Fin (16777215 / 16777216)]"
proof -
  have "in_time sch (length (roc_points big_pred))"
    by (rule in_time_small) (simp add: big_points warp_size_def)
  from sched_rates_in_time [OF this]
  show "sched_tpr sch big_pred big_label = [Fin 1]"
    "sched_fpr sch big_pred big_label = [Fin (16777215 / 16777216)]"
    by (simp_all add: big_roc_rates)
qed

lemma big_finalized:
  "d_num_selected_out (finalized sch big_state big_n) = 1"
  "hd (tpr (finalized sch big_state big_n)) = Fin 1"
  "hd (fpr (finalized sch big_state big_n)) = Fin (16777215 / 16777216)"
  unfolding finalized_def Let_def big_sorted big_points big_rates by simp_all

text \<open>
  Against C10 as it is stated: with \<open>2\<^sup>2\<^sup>4 + 2\<close> tied samples, one of them positive,
  there is one compacted point. Both
  totals are numbers other than zero and the true-positive rate of the point is 1, but its
  false-positive rate is \<open>16777215 / 16777216\<close>: the rank \<open>2\<^sup>2\<^sup>4 + 1\<close> and the sum
  \<open>1.0f + rank\<close> both round to \<open>2\<^sup>2\<^sup>4\<close>.
\<close>

theorem last_compacted_point_counterexample:
  "map_option (d_num_selected_out \<circ> snd) (AUC_finalize_metric in_order big_state) = Some 1
   \<and> nonzero (total_pos (sorted_labels big_state big_n))
   \<and> nonzero (total_neg (sorted_labels big_state big_n))
   \<and> map_option (hd \<circ> tpr \<circ> snd) (AUC_finalize_metric in_order big_state) = Some (Fin 1)
   \<and> map_option (hd \<circ> fpr \<circ> snd) (AUC_finalize_metric in_order big_state)
       = Some (Fin (16777215 / 16777216))"
proof -
  have fin: "AUC_finalize_metric in_order big_state =
      Some (roc_auc in_order (sorted_preds big_state big_n) (sorted_labels big_state big_n),
            finalized in_order big_state big_n)"
    by (rule finalize_finalized) (simp_all add: big_fields big_n_pos)
  from fin big_finalized show ?thesis by (simp add: big_sorted big_totals)
qed

end
